theory Spec2Isabelle
  imports Complex_Main "HOL-Library.Sublist"
begin

section \<open>ringBuffer.ts: the bounded event store\<close>

text \<open>
  The class \<^verbatim>\<open>RingBuffer<T>\<close> owns a slot array, a write cursor \<^verbatim>\<open>head\<close>, a live count
  and a fixed capacity. A slot that was never written reads as \<^verbatim>\<open>undefined\<close>; it is
  \<open>None\<close> here, and so is an array read past the end. The cursor is a JavaScript number:
  with capacity 0 the expression \<^verbatim>\<open>(head + 1) % capacity\<close> is \<^verbatim>\<open>NaN\<close>, which is the
  value \<open>None\<close> of \<open>head\<close>. The capacity is a natural number; \<^verbatim>\<open>new Array(capacity)\<close>
  throws a RangeError from \<open>2 ^ 32\<close> on.
\<close>

datatype js_error = RangeError | TypeError

record 'a RingBuffer =
  buffer :: "'a option list"
  head :: "nat option"
  count :: nat
  capacity :: nat

definition RingBuffer_new :: "nat \<Rightarrow> js_error + 'a RingBuffer" where
  "RingBuffer_new cap =
     (if cap < 2 ^ 32
      then Inr \<lparr> buffer = replicate cap None, head = Some 0, count = 0, capacity = cap \<rparr>
      else Inl RangeError)"

text \<open>An indexed store into a JavaScript array extends the array when the index is past its end.\<close>

definition js_store :: "'a option list \<Rightarrow> nat \<Rightarrow> 'a \<Rightarrow> 'a option list" where
  "js_store xs i v =
     (if i < length xs then xs[i := Some v]
      else xs @ replicate (i - length xs) None @ [Some v])"

definition js_read :: "'a option list \<Rightarrow> nat \<Rightarrow> 'a option" where
  "js_read xs i = (if i < length xs then xs ! i else None)"

text \<open>
  \<^verbatim>\<open>push\<close>: store at the cursor, advance the cursor modulo the capacity, count up to the
  capacity. A store at index \<^verbatim>\<open>NaN\<close> sets a property of that name and no array element.
\<close>

definition push :: "'a \<Rightarrow> 'a RingBuffer \<Rightarrow> 'a RingBuffer" where
  "push item rb =
     rb \<lparr> buffer := (case head rb of Some h \<Rightarrow> js_store (buffer rb) h item | None \<Rightarrow> buffer rb),
          head := (case head rb of
                     Some h \<Rightarrow> if capacity rb = 0 then None else Some ((h + 1) mod capacity rb)
                   | None \<Rightarrow> None),
          count := (if count rb < capacity rb then count rb + 1 else count rb) \<rparr>"

definition pushes :: "'a RingBuffer \<Rightarrow> 'a list \<Rightarrow> 'a RingBuffer" where
  "pushes rb xs = foldl (\<lambda>b x. push x b) rb xs"

text \<open>
  \<^verbatim>\<open>toArray\<close>: the live items, oldest first. The result holds what the slots hold, so an
  unwritten slot would show as \<open>None\<close>.
\<close>

definition toArray :: "'a RingBuffer \<Rightarrow> 'a option list" where
  "toArray rb =
     (if count rb = 0 then []
      else let start = (if count rb < capacity rb then Some 0 else head rb)
           in map (\<lambda>i. case start of
                          Some s \<Rightarrow> js_read (buffer rb) ((s + i) mod capacity rb)
                        | None \<Rightarrow> None)
                  [0 ..< count rb])"

text \<open>
  \<^verbatim>\<open>since\<close>: the items of \<^verbatim>\<open>toArray()\<close> whose timestamp is at least \<^verbatim>\<open>now - ms\<close>. The
  field read \<^verbatim>\<open>item.timestamp\<close> is the parameter \<open>ts\<close>; on an \<^verbatim>\<open>undefined\<close> item the read
  throws a TypeError.

  Timestamps, the window and the clock are millisecond counts, integers here. The code
  computes on doubles. Every integer of magnitude at most \<open>2 ^ 53\<close> is a double, and on
  such integers the subtraction is exact when its result is again of magnitude at most
  \<open>2 ^ 53\<close>, and the comparison is exact. Beyond that range the subtraction of the code
  rounds, and the definition below is not the code: what is proved about \<open>since\<close> is stated
  for numbers inside the range, \<open>safe_integer\<close>.
\<close>

definition safe_integer :: "int \<Rightarrow> bool" where
  "safe_integer n \<longleftrightarrow> \<bar>n\<bar> \<le> 2 ^ 53"

definition since :: "('a \<Rightarrow> int) \<Rightarrow> int \<Rightarrow> int \<Rightarrow> 'a RingBuffer \<Rightarrow> js_error + 'a list" where
  "since ts ms now rb =
     (let cutoff = now - ms; items = toArray rb
      in if None \<in> set items then Inl TypeError
         else Inr (filter (\<lambda>item. ts item \<ge> cutoff) (map the items)))"

definition clear :: "'a RingBuffer \<Rightarrow> 'a RingBuffer" where
  "clear rb = rb \<lparr> buffer := replicate (capacity rb) None, head := Some 0, count := 0 \<rparr>"

definition size_rb :: "'a RingBuffer \<Rightarrow> nat" where
  "size_rb rb = count rb"

definition maxSize :: "'a RingBuffer \<Rightarrow> nat" where
  "maxSize rb = capacity rb"


section \<open>types.ts: events and the phase assessment\<close>

text \<open>
  The tagged union \<^verbatim>\<open>ActivityEvent\<close>, one constructor per \<^verbatim>\<open>kind\<close>. A field of type
  \<^verbatim>\<open>string | null\<close> or \<^verbatim>\<open>number | undefined\<close> is an option. Strings are sequences of
  code units below 256; counts are integers.
\<close>

datatype EventKind =
  file_switch | file_save | debug_start | debug_stop | diagnostic_change
  | terminal_command_start | terminal_command_end | text_change | breakpoint_change

datatype ActivityEvent =
    FileSwitchEvent (timestamp: int) (fromUri: "string option") (toUri: "string option")
      (toLanguageId: "string option")
  | FileSaveEvent (timestamp: int) (uri: string) (languageId: string)
  | DebugStartEvent (timestamp: int) (sessionName: string) (sessionType: string)
  | DebugStopEvent (timestamp: int) (sessionName: string) (sessionType: string)
  | DiagnosticChangeEvent (timestamp: int) (uris: "string list") (totalErrors: int)
      (totalWarnings: int)
  | TerminalCommandStartEvent (timestamp: int) (commandLine: string) (terminalName: string)
  | TerminalCommandEndEvent (timestamp: int) (commandLine: string) (terminalName: string)
      (exitCode: "int option")
  | TextChangeEvent (timestamp: int) (uri: string) (changeCount: int)
  | BreakpointChangeEvent (timestamp: int) (added: int) (removed: int) (changed: int)

fun kind :: "ActivityEvent \<Rightarrow> EventKind" where
  "kind (FileSwitchEvent _ _ _ _) = file_switch"
| "kind (FileSaveEvent _ _ _) = file_save"
| "kind (DebugStartEvent _ _ _) = debug_start"
| "kind (DebugStopEvent _ _ _) = debug_stop"
| "kind (DiagnosticChangeEvent _ _ _ _) = diagnostic_change"
| "kind (TerminalCommandStartEvent _ _ _) = terminal_command_start"
| "kind (TerminalCommandEndEvent _ _ _ _) = terminal_command_end"
| "kind (TextChangeEvent _ _ _) = text_change"
| "kind (BreakpointChangeEvent _ _ _ _) = breakpoint_change"

datatype WorkflowPhase = exploring | iterating | building | debugging | archaeology | unknown

record PhaseAssessment =
  phase :: WorkflowPhase
  confidence :: rat
  reasoning :: string
  recentFiles :: "string list"

section \<open>The two regular expressions of phaseDetection.ts\<close>

text \<open>
  Both patterns are built from literal characters, alternation, \<^verbatim>\<open>\s+\<close> and \<^verbatim>\<open>\b\<close>, under
  the flag \<^verbatim>\<open>i\<close>. \<open>rx_ends r s i\<close> lists the positions where a match of \<open>r\<close> that starts
  at position \<open>i\<close> of \<open>s\<close> can end; \<^verbatim>\<open>RegExp.prototype.test\<close> asks whether some start
  position has a match. Under the flag \<^verbatim>\<open>i\<close> two characters match when their canonical forms
  are equal; the patterns hold ASCII letters only, and no character from 128 on has an ASCII
  canonical form, so \<open>canonicalize\<close> folds the ASCII letters and leaves the rest. White space
  is the white space among the code units below 256.
\<close>

datatype rx = Empty | Never | Chr char | Seq rx rx | Alt rx rx | SpacePlus | WordBoundary

definition is_word_char :: "char \<Rightarrow> bool" where
  "is_word_char c \<longleftrightarrow>
     (let n = (of_char c :: nat)
      in (48 \<le> n \<and> n \<le> 57) \<or> (65 \<le> n \<and> n \<le> 90) \<or> n = 95 \<or> (97 \<le> n \<and> n \<le> 122))"

definition is_space_char :: "char \<Rightarrow> bool" where
  "is_space_char c \<longleftrightarrow> (of_char c :: nat) \<in> {9, 10, 11, 12, 13, 32, 160}"

definition canonicalize :: "char \<Rightarrow> char" where
  "canonicalize c =
     (let n = (of_char c :: nat) in if 97 \<le> n \<and> n \<le> 122 then char_of (n - 32) else c)"

definition word_at :: "string \<Rightarrow> int \<Rightarrow> bool" where
  "word_at s i \<longleftrightarrow> 0 \<le> i \<and> i < int (length s) \<and> is_word_char (s ! nat i)"

fun rx_ends :: "rx \<Rightarrow> string \<Rightarrow> nat \<Rightarrow> nat list" where
  "rx_ends Empty s i = [i]"
| "rx_ends Never s i = []"
| "rx_ends (Chr c) s i =
     (if i < length s \<and> canonicalize (s ! i) = canonicalize c then [i + 1] else [])"
| "rx_ends (Seq a b) s i = concat (map (rx_ends b s) (rx_ends a s i))"
| "rx_ends (Alt a b) s i = rx_ends a s i @ rx_ends b s i"
| "rx_ends SpacePlus s i =
     map (\<lambda>n. i + n) [1 ..< Suc (length (takeWhile is_space_char (drop i s)))]"
| "rx_ends WordBoundary s i =
     (if word_at s (int i - 1) \<noteq> word_at s (int i) then [i] else [])"

definition rx_test :: "rx \<Rightarrow> string \<Rightarrow> bool" where
  "rx_test r s \<longleftrightarrow> (\<exists>i \<in> set [0 ..< Suc (length s)]. rx_ends r s i \<noteq> [])"

definition Lit :: "string \<Rightarrow> rx" where
  "Lit cs = foldr (\<lambda>c r. Seq (Chr c) r) cs Empty"

definition Seqs :: "rx list \<Rightarrow> rx" where
  "Seqs rs = foldr Seq rs Empty"

definition Alts :: "rx list \<Rightarrow> rx" where
  "Alts rs = foldr Alt rs Never"

text \<open>\<^verbatim>\<open>/\b(test|jest|mocha|pytest|cargo\s+test|npm\s+test|npm\s+run\s+test)\b/i\<close>\<close>

definition test_command_rx :: rx where
  "test_command_rx =
     Seqs [WordBoundary,
           Alts [Lit ''test'', Lit ''jest'', Lit ''mocha'', Lit ''pytest'',
                 Seqs [Lit ''cargo'', SpacePlus, Lit ''test''],
                 Seqs [Lit ''npm'', SpacePlus, Lit ''test''],
                 Seqs [Lit ''npm'', SpacePlus, Lit ''run'', SpacePlus, Lit ''test'']],
           WordBoundary]"

text \<open>\<^verbatim>\<open>/\bgit\s+(blame|log|diff|show|annotate)\b/i\<close>\<close>

definition git_history_rx :: rx where
  "git_history_rx =
     Seqs [WordBoundary, Lit ''git'', SpacePlus,
           Alts [Lit ''blame'', Lit ''log'', Lit ''diff'', Lit ''show'', Lit ''annotate''],
           WordBoundary]"


section \<open>phaseDetection.ts: the classifier\<close>

text \<open>Numbers in template strings: the decimal digits of a count.\<close>

function show_nat :: "nat \<Rightarrow> string" where
  "show_nat n =
     (if n < 10 then [char_of (48 + n)]
      else show_nat (n div 10) @ [char_of (48 + n mod 10)])"
  by pat_completeness auto
termination
  by (relation "measure (\<lambda>n. n)") auto

declare show_nat.simps [simp del]

text \<open>
  \<^verbatim>\<open>uniqueFiles\<close> is a \<^verbatim>\<open>Set<string>\<close>; it iterates in insertion order and adding a
  member again changes nothing, so it is a list without repetitions. The guards
  \<^verbatim>\<open>if (e.fromUri)\<close> and \<^verbatim>\<open>if (e.toUri)\<close> skip \<^verbatim>\<open>null\<close> and the empty string.
\<close>

definition set_add :: "string \<Rightarrow> string list \<Rightarrow> string list" where
  "set_add x files = (if x \<in> set files then files else files @ [x])"

definition add_if_truthy :: "string option \<Rightarrow> string list \<Rightarrow> string list" where
  "add_if_truthy u files =
     (case u of None \<Rightarrow> files | Some x \<Rightarrow> if x = [] then files else set_add x files)"

definition uniqueFiles :: "ActivityEvent list \<Rightarrow> string list" where
  "uniqueFiles events =
     (let fileSwitches = filter (\<lambda>e. kind e = file_switch) events;
          textChanges = filter (\<lambda>e. kind e = text_change) events;
          afterSwitches =
            foldl (\<lambda>files e. case e of
                       FileSwitchEvent _ f t _ \<Rightarrow> add_if_truthy t (add_if_truthy f files)
                     | _ \<Rightarrow> files) [] fileSwitches
      in foldl (\<lambda>files e. case e of
                   TextChangeEvent _ u _ \<Rightarrow> set_add u files
                 | _ \<Rightarrow> files) afterSwitches textChanges)"

definition is_command_matching :: "rx \<Rightarrow> ActivityEvent \<Rightarrow> bool" where
  "is_command_matching r e =
     (case e of TerminalCommandStartEvent _ cmd _ \<Rightarrow> rx_test r cmd | _ \<Rightarrow> False)"

text \<open>The score table: \<^verbatim>\<open>scores.p += k\<close> is \<open>bump\<close>.\<close>

definition bump :: "(WorkflowPhase \<Rightarrow> nat) \<Rightarrow> WorkflowPhase \<Rightarrow> nat \<Rightarrow> WorkflowPhase \<Rightarrow> nat" where
  "bump sc p k = sc (p := sc p + k)"

definition scores :: "ActivityEvent list \<Rightarrow> WorkflowPhase \<Rightarrow> nat" where
  "scores events =
     (let fileSwitches = filter (\<lambda>e. kind e = file_switch) events;
          textChanges = filter (\<lambda>e. kind e = text_change) events;
          saves = filter (\<lambda>e. kind e = file_save) events;
          debugStarts = filter (\<lambda>e. kind e = debug_start) events;
          debugStops = filter (\<lambda>e. kind e = debug_stop) events;
          terminalCmds = filter (\<lambda>e. kind e = terminal_command_start) events;
          diagnosticChanges = filter (\<lambda>e. kind e = diagnostic_change) events;
          breakpointChanges = filter (\<lambda>e. kind e = breakpoint_change) events;
          files = uniqueFiles events;
          s0 = (\<lambda>p. 0);
          s1 = (if length fileSwitches \<ge> 4 \<and> length textChanges \<le> 1
                then bump s0 exploring 3 else s0);
          s2 = (if length files \<ge> 3 \<and> length textChanges = 0
                then bump s1 exploring 2 else s1);
          s3 = (if length textChanges \<ge> 2 \<and> length saves \<ge> 1
                then bump s2 iterating 2 else s2);
          testCommands = filter (is_command_matching test_command_rx) terminalCmds;
          s4 = (if length testCommands \<ge> 1 \<and> length textChanges \<ge> 1
                then bump s3 iterating 3 else s3);
          s5 = (if length diagnosticChanges \<ge> 2 then bump s4 iterating 1 else s4);
          s6 = (if length textChanges \<ge> 3 \<and> length fileSwitches \<le> 2
                then bump s5 building 3 else s5);
          s7 = (if length saves \<ge> 2 \<and> length textChanges \<ge> 2 \<and> length fileSwitches \<le> 1
                then bump s6 building 2 else s6);
          s8 = (if length debugStarts > length debugStops then bump s7 debugging 4 else s7);
          s9 = (if length breakpointChanges \<ge> 1 then bump s8 debugging 2 else s8);
          s10 = (if length debugStarts \<ge> 1 then bump s9 debugging 1 else s9);
          gitHistoryCommands = filter (is_command_matching git_history_rx) terminalCmds;
          s11 = (if length gitHistoryCommands \<ge> 1 then bump s10 archaeology 3 else s10);
          s12 = (if length fileSwitches \<ge> 3 \<and> length textChanges = 0
                    \<and> length gitHistoryCommands \<ge> 1
                 then bump s11 archaeology 2 else s11)
      in s12)"

text \<open>
  \<^verbatim>\<open>Object.entries(scores)\<close> lists the keys in the order the object literal wrote them.
  The loop keeps the first entry whose score is above every score before it.
\<close>

definition phase_order :: "WorkflowPhase list" where
  "phase_order = [exploring, iterating, building, debugging, archaeology, unknown]"

definition entries :: "(WorkflowPhase \<Rightarrow> nat) \<Rightarrow> (WorkflowPhase \<times> nat) list" where
  "entries sc = map (\<lambda>p. (p, sc p)) phase_order"

definition findWinner :: "(WorkflowPhase \<times> nat) list \<Rightarrow> WorkflowPhase \<times> nat" where
  "findWinner es =
     foldl (\<lambda>(bestPhase, bestScore) (p, score).
              if score > bestScore then (p, score) else (bestPhase, bestScore))
           (unknown, 0) es"

definition generateReasoning :: "WorkflowPhase \<Rightarrow> ActivityEvent list \<Rightarrow> string list \<Rightarrow> string" where
  "generateReasoning p events files =
     (let fileCount = show_nat (length files);
          editCount = show_nat (length (filter (\<lambda>e. kind e = text_change) events));
          switchCount = show_nat (length (filter (\<lambda>e. kind e = file_switch) events))
      in case p of
           exploring \<Rightarrow> ''Navigated across '' @ fileCount @ '' files with '' @ switchCount
                          @ '' switches and minimal edits ('' @ editCount @ '')''
         | iterating \<Rightarrow> ''Making edits ('' @ editCount
                          @ '') and running tests/builds across '' @ fileCount @ '' files''
         | building \<Rightarrow> ''Actively writing code with '' @ editCount
                          @ '' edit bursts, focused on '' @ fileCount @ '' files''
         | debugging \<Rightarrow> ''Debug session active with breakpoint activity across ''
                          @ fileCount @ '' files''
         | archaeology \<Rightarrow> ''Browsing git history and navigating '' @ fileCount
                          @ '' files without edits''
         | unknown \<Rightarrow> ''Activity pattern unclear ('' @ show_nat (length events)
                          @ '' events, '' @ fileCount @ '' files)'')"

text \<open>\<^verbatim>\<open>Math.round\<close> rounds to the nearest integer, a half upwards. Numbers are rationals.\<close>

definition js_round :: "rat \<Rightarrow> int" where
  "js_round x = \<lfloor>x + 1 / 2\<rfloor>"

definition detectPhase :: "ActivityEvent list \<Rightarrow> PhaseAssessment" where
  "detectPhase events =
     (if length events < 3
      then \<lparr> phase = unknown, confidence = 0, reasoning = ''Insufficient activity'',
             recentFiles = [] \<rparr>
      else
        let files = uniqueFiles events;
            (bestPhase, bestScore) = findWinner (entries (scores events));
            conf = min 1 (of_nat bestScore / 5)
        in \<lparr> phase = bestPhase,
             confidence = of_int (js_round (conf * 100)) / 100,
             reasoning = generateReasoning bestPhase events files,
             recentFiles = take 5 files \<rparr>)"


section \<open>eventLog.ts: the debounced text-change listener\<close>

text \<open>
  The recorder owns the ring buffer, the last active resource and the map
  \<^verbatim>\<open>textChangeTimers\<close>. A pending timer is its key, its deadline and the \<^verbatim>\<open>changeCount\<close>
  its callback closed over; every pending timer has its handle in the map (the listener
  clears the one it replaces, the callback deletes its own), so the map is the timer queue.
  The entries are kept in the order the timers were created; as every delay is
  \<^verbatim>\<open>TEXT_CHANGE_DEBOUNCE_MS\<close>, that is the order in which they fall due. Time is explicit:
  each notification carries the clock reading, and a callback runs at its deadline.
\<close>

definition TEXT_CHANGE_DEBOUNCE_MS :: int where
  "TEXT_CHANGE_DEBOUNCE_MS = 2000"

record EventLog =
  log_buffer :: "ActivityEvent RingBuffer"
  lastActiveUri :: "string option"
  textChangeTimers :: "(string \<times> int \<times> int) list"

text \<open>
  The listener of \<^verbatim>\<open>onDidChangeTextDocument\<close>: nothing for an empty change list; otherwise
  the resource's pending timer is cleared and a new one is set, closing over the length of
  this notification's change list.
\<close>

definition onDidChangeTextDocument :: "int \<Rightarrow> string \<Rightarrow> nat \<Rightarrow> EventLog \<Rightarrow> EventLog" where
  "onDidChangeTextDocument now u contentChanges st =
     (if contentChanges = 0 then st
      else st \<lparr> textChangeTimers :=
                  filter (\<lambda>t. fst t \<noteq> u) (textChangeTimers st)
                    @ [(u, now + TEXT_CHANGE_DEBOUNCE_MS, int contentChanges)] \<rparr>)"

text \<open>The timer callback: append the event, delete the map entry.\<close>

definition timerCallback :: "int \<Rightarrow> string \<Rightarrow> int \<Rightarrow> EventLog \<Rightarrow> EventLog" where
  "timerCallback now u n st =
     st \<lparr> log_buffer := push (TextChangeEvent now u n) (log_buffer st),
          textChangeTimers := filter (\<lambda>t. fst t \<noteq> u) (textChangeTimers st) \<rparr>"

text \<open>The host runs, in order, the callbacks of the timers that are due at \<open>now\<close>.\<close>

definition runTimers :: "int \<Rightarrow> EventLog \<Rightarrow> EventLog" where
  "runTimers now st =
     foldl (\<lambda>s (u, deadline, n). if deadline \<le> now then timerCallback deadline u n s else s)
           st (textChangeTimers st)"

text \<open>
  A text-change notification at time \<open>now\<close>: the timers that fell due before it have run.
  A notification is the time, the resource and the length of the change list.
\<close>

definition notifyTextChange :: "EventLog \<Rightarrow> int \<times> string \<times> nat \<Rightarrow> EventLog" where
  "notifyTextChange st ev =
     (case ev of (now, u, contentChanges) \<Rightarrow>
        onDidChangeTextDocument now u contentChanges (runTimers now st))"

definition notifications :: "EventLog \<Rightarrow> (int \<times> string \<times> nat) list \<Rightarrow> EventLog" where
  "notifications st evs = foldl notifyTextChange st evs"

text \<open>
  A burst on one resource: non-empty change lists, each notification less than the debounce
  delay after the one before.
\<close>

fun is_burst :: "(int \<times> nat) list \<Rightarrow> bool" where
  "is_burst [] = True"
| "is_burst [(t, n)] = (n > 0)"
| "is_burst ((t, n) # (t', n') # rest) =
     (n > 0 \<and> t \<le> t' \<and> t' < t + TEXT_CHANGE_DEBOUNCE_MS \<and> is_burst ((t', n') # rest))"

section \<open>httpClient.ts: how the promise of postJson settles\<close>










section \<open>The context bundle and its wire JSON\<close>

text \<open>
  The remaining interfaces of types.ts. The field \<^verbatim>\<open>version\<close> has the literal type
  \<^verbatim>\<open>1\<close>, so it is not a field of the record; the object always carries \<^verbatim>\<open>version: 1\<close>.
  An optional or \<^verbatim>\<open>undefined\<close>-typed field is an option.
\<close>

record EditorState =
  ed_uri :: string
  ed_languageId :: string
  cursorLine :: int
  cursorColumn :: int
  selectionText :: string
  selectionStartLine :: int
  selectionEndLine :: int
  visibleRangeStart :: int
  visibleRangeEnd :: int
  lineCount :: int
  ed_isDirty :: bool

record TabInfo =
  tab_uri :: string
  label :: string
  tab_isDirty :: bool
  isActive :: bool
  isPinned :: bool

datatype Severity = error | warning | info | hint

record DiagnosticInfo =
  diag_uri :: string
  severity :: Severity
  message :: string
  line :: int
  source :: string

record BreakpointInfo =
  bp_uri :: string
  bp_line :: int
  enabled :: bool
  condition :: "string option"

record GitStatus =
  branch :: string
  ahead :: int
  behind :: int
  staged :: "string list"
  modified :: "string list"
  untracked :: "string list"

record PolledState =
  activeEditor :: "EditorState option"
  openTabs :: "TabInfo list"
  dirtyFiles :: "string list"
  diagnostics :: "DiagnosticInfo list"
  breakpoints :: "BreakpointInfo list"
  gitStatus :: "GitStatus option"
  workspaceFolders :: "string list"

record Selection =
  sel_uri :: string
  startLine :: int
  endLine :: int
  snippet :: string
  sel_languageId :: string

record ContextBundle =
  bundle_timestamp :: string
  eventLog :: "ActivityEvent list"
  state :: PolledState
  bundle_phase :: PhaseAssessment
  selection :: "Selection option"

text \<open>
  JavaScript values as trees: an object is its own properties in insertion order. A JSON
  document is the same tree without \<^verbatim>\<open>undefined\<close>. The wire text is taken as its syntax
  tree, and numbers are finite.
\<close>

datatype js_value =
    JsUndefined | JsNull | JsBool bool | JsNumber rat | JsString string
  | JsArray "js_value list" | JsObject "(string \<times> js_value) list"

datatype json =
    JNull | JBool bool | JNumber rat | JString string
  | JArray "json list" | JObject "(string \<times> json) list"

text \<open>
  \<^verbatim>\<open>JSON.stringify\<close>: \<^verbatim>\<open>undefined\<close> has no JSON text; a property whose value is
  \<^verbatim>\<open>undefined\<close> is left out, an array element that is \<^verbatim>\<open>undefined\<close> is written \<^verbatim>\<open>null\<close>.
\<close>

fun JSON_stringify :: "js_value \<Rightarrow> json option"
  and stringify_elements :: "js_value list \<Rightarrow> json list"
  and stringify_properties :: "(string \<times> js_value) list \<Rightarrow> (string \<times> json) list" where
  "JSON_stringify JsUndefined = None"
| "JSON_stringify JsNull = Some JNull"
| "JSON_stringify (JsBool b) = Some (JBool b)"
| "JSON_stringify (JsNumber n) = Some (JNumber n)"
| "JSON_stringify (JsString s) = Some (JString s)"
| "JSON_stringify (JsArray vs) = Some (JArray (stringify_elements vs))"
| "JSON_stringify (JsObject ps) = Some (JObject (stringify_properties ps))"
| "stringify_elements [] = []"
| "stringify_elements (v # vs) =
     (case JSON_stringify v of None \<Rightarrow> JNull | Some j \<Rightarrow> j) # stringify_elements vs"
| "stringify_properties [] = []"
| "stringify_properties (p # ps) =
     (case JSON_stringify (snd p) of
        None \<Rightarrow> stringify_properties ps
      | Some j \<Rightarrow> (fst p, j) # stringify_properties ps)"

fun JSON_parse :: "json \<Rightarrow> js_value"
  and parse_elements :: "json list \<Rightarrow> js_value list"
  and parse_properties :: "(string \<times> json) list \<Rightarrow> (string \<times> js_value) list" where
  "JSON_parse JNull = JsNull"
| "JSON_parse (JBool b) = JsBool b"
| "JSON_parse (JNumber n) = JsNumber n"
| "JSON_parse (JString s) = JsString s"
| "JSON_parse (JArray js) = JsArray (parse_elements js)"
| "JSON_parse (JObject ps) = JsObject (parse_properties ps)"
| "parse_elements [] = []"
| "parse_elements (j # js) = JSON_parse j # parse_elements js"
| "parse_properties [] = []"
| "parse_properties (p # ps) = (fst p, JSON_parse (snd p)) # parse_properties ps"

definition round_trip :: "js_value \<Rightarrow> js_value option" where
  "round_trip v = map_option JSON_parse (JSON_stringify v)"

text \<open>The value without its \<^verbatim>\<open>undefined\<close> properties, and the test that it has none.\<close>

fun without_undefined :: "js_value \<Rightarrow> js_value"
  and elements_without_undefined :: "js_value list \<Rightarrow> js_value list"
  and properties_without_undefined :: "(string \<times> js_value) list \<Rightarrow> (string \<times> js_value) list" where
  "without_undefined (JsArray vs) = JsArray (elements_without_undefined vs)"
| "without_undefined (JsObject ps) = JsObject (properties_without_undefined ps)"
| "without_undefined v = v"
| "elements_without_undefined [] = []"
| "elements_without_undefined (v # vs) =
     (if v = JsUndefined then JsNull else without_undefined v) # elements_without_undefined vs"
| "properties_without_undefined [] = []"
| "properties_without_undefined (p # ps) =
     (if snd p = JsUndefined then properties_without_undefined ps
      else (fst p, without_undefined (snd p)) # properties_without_undefined ps)"


text \<open>
  The objects the code builds, property by property in the order of the object literals:
  the events in eventLog.ts, the polled state in polledState.ts, the assessment in
  phaseDetection.ts, the bundle in contextAssembly.ts. The literals write
  \<^verbatim>\<open>exitCode: event.exitCode\<close>, \<^verbatim>\<open>condition: bp.condition\<close> and \<^verbatim>\<open>selection\<close> whether or not
  the value is \<^verbatim>\<open>undefined\<close>.
\<close>

definition js_int :: "int \<Rightarrow> js_value" where
  "js_int n = JsNumber (of_int n)"

definition js_strings :: "string list \<Rightarrow> js_value" where
  "js_strings xs = JsArray (map JsString xs)"

definition or_null :: "('a \<Rightarrow> js_value) \<Rightarrow> 'a option \<Rightarrow> js_value" where
  "or_null f x = (case x of None \<Rightarrow> JsNull | Some a \<Rightarrow> f a)"

definition or_undefined :: "('a \<Rightarrow> js_value) \<Rightarrow> 'a option \<Rightarrow> js_value" where
  "or_undefined f x = (case x of None \<Rightarrow> JsUndefined | Some a \<Rightarrow> f a)"

fun kind_name :: "EventKind \<Rightarrow> string" where
  "kind_name file_switch = ''file_switch''"
| "kind_name file_save = ''file_save''"
| "kind_name debug_start = ''debug_start''"
| "kind_name debug_stop = ''debug_stop''"
| "kind_name diagnostic_change = ''diagnostic_change''"
| "kind_name terminal_command_start = ''terminal_command_start''"
| "kind_name terminal_command_end = ''terminal_command_end''"
| "kind_name text_change = ''text_change''"
| "kind_name breakpoint_change = ''breakpoint_change''"

fun phase_name :: "WorkflowPhase \<Rightarrow> string" where
  "phase_name exploring = ''exploring''"
| "phase_name iterating = ''iterating''"
| "phase_name building = ''building''"
| "phase_name debugging = ''debugging''"
| "phase_name archaeology = ''archaeology''"
| "phase_name unknown = ''unknown''"

fun severity_name :: "Severity \<Rightarrow> string" where
  "severity_name error = ''error''"
| "severity_name warning = ''warning''"
| "severity_name info = ''info''"
| "severity_name hint = ''hint''"

fun event_fields :: "ActivityEvent \<Rightarrow> (string \<times> js_value) list" where
  "event_fields (FileSwitchEvent t f u l) =
     [(''fromUri'', or_null JsString f), (''toUri'', or_null JsString u),
      (''toLanguageId'', or_null JsString l)]"
| "event_fields (FileSaveEvent t u l) = [(''uri'', JsString u), (''languageId'', JsString l)]"
| "event_fields (DebugStartEvent t n ty) =
     [(''sessionName'', JsString n), (''sessionType'', JsString ty)]"
| "event_fields (DebugStopEvent t n ty) =
     [(''sessionName'', JsString n), (''sessionType'', JsString ty)]"
| "event_fields (DiagnosticChangeEvent t us e w) =
     [(''uris'', js_strings us), (''totalErrors'', js_int e), (''totalWarnings'', js_int w)]"
| "event_fields (TerminalCommandStartEvent t c n) =
     [(''commandLine'', JsString c), (''terminalName'', JsString n)]"
| "event_fields (TerminalCommandEndEvent t c n x) =
     [(''commandLine'', JsString c), (''terminalName'', JsString n),
      (''exitCode'', or_undefined js_int x)]"
| "event_fields (TextChangeEvent t u n) = [(''uri'', JsString u), (''changeCount'', js_int n)]"
| "event_fields (BreakpointChangeEvent t a r c) =
     [(''added'', js_int a), (''removed'', js_int r), (''changed'', js_int c)]"

definition event_to_js :: "ActivityEvent \<Rightarrow> js_value" where
  "event_to_js e =
     JsObject ([(''kind'', JsString (kind_name (kind e))), (''timestamp'', js_int (timestamp e))]
               @ event_fields e)"

definition editor_to_js :: "EditorState \<Rightarrow> js_value" where
  "editor_to_js ed =
     JsObject [(''uri'', JsString (ed_uri ed)), (''languageId'', JsString (ed_languageId ed)),
               (''cursorLine'', js_int (cursorLine ed)),
               (''cursorColumn'', js_int (cursorColumn ed)),
               (''selectionText'', JsString (selectionText ed)),
               (''selectionStartLine'', js_int (selectionStartLine ed)),
               (''selectionEndLine'', js_int (selectionEndLine ed)),
               (''visibleRangeStart'', js_int (visibleRangeStart ed)),
               (''visibleRangeEnd'', js_int (visibleRangeEnd ed)),
               (''lineCount'', js_int (lineCount ed)), (''isDirty'', JsBool (ed_isDirty ed))]"

definition tab_to_js :: "TabInfo \<Rightarrow> js_value" where
  "tab_to_js tab =
     JsObject [(''uri'', JsString (tab_uri tab)), (''label'', JsString (label tab)),
               (''isDirty'', JsBool (tab_isDirty tab)), (''isActive'', JsBool (isActive tab)),
               (''isPinned'', JsBool (isPinned tab))]"

definition diagnostic_to_js :: "DiagnosticInfo \<Rightarrow> js_value" where
  "diagnostic_to_js d =
     JsObject [(''uri'', JsString (diag_uri d)),
               (''severity'', JsString (severity_name (severity d))),
               (''message'', JsString (message d)), (''line'', js_int (line d)),
               (''source'', JsString (source d))]"

definition breakpoint_to_js :: "BreakpointInfo \<Rightarrow> js_value" where
  "breakpoint_to_js bp =
     JsObject [(''uri'', JsString (bp_uri bp)), (''line'', js_int (bp_line bp)),
               (''enabled'', JsBool (enabled bp)),
               (''condition'', or_undefined JsString (condition bp))]"

definition git_to_js :: "GitStatus \<Rightarrow> js_value" where
  "git_to_js g =
     JsObject [(''branch'', JsString (branch g)), (''ahead'', js_int (ahead g)),
               (''behind'', js_int (behind g)), (''staged'', js_strings (staged g)),
               (''modified'', js_strings (modified g)),
               (''untracked'', js_strings (untracked g))]"

definition state_to_js :: "PolledState \<Rightarrow> js_value" where
  "state_to_js st =
     JsObject [(''activeEditor'', or_null editor_to_js (activeEditor st)),
               (''openTabs'', JsArray (map tab_to_js (openTabs st))),
               (''dirtyFiles'', js_strings (dirtyFiles st)),
               (''diagnostics'', JsArray (map diagnostic_to_js (diagnostics st))),
               (''breakpoints'', JsArray (map breakpoint_to_js (breakpoints st))),
               (''gitStatus'', or_null git_to_js (gitStatus st)),
               (''workspaceFolders'', js_strings (workspaceFolders st))]"

definition phase_to_js :: "PhaseAssessment \<Rightarrow> js_value" where
  "phase_to_js a =
     JsObject [(''phase'', JsString (phase_name (phase a))),
               (''confidence'', JsNumber (confidence a)),
               (''reasoning'', JsString (reasoning a)),
               (''recentFiles'', js_strings (recentFiles a))]"

definition selection_to_js :: "Selection \<Rightarrow> js_value" where
  "selection_to_js sel =
     JsObject [(''uri'', JsString (sel_uri sel)), (''startLine'', js_int (startLine sel)),
               (''endLine'', js_int (endLine sel)), (''snippet'', JsString (snippet sel)),
               (''languageId'', JsString (sel_languageId sel))]"

definition bundle_to_js :: "ContextBundle \<Rightarrow> js_value" where
  "bundle_to_js b =
     JsObject [(''version'', JsNumber 1), (''timestamp'', JsString (bundle_timestamp b)),
               (''eventLog'', JsArray (map event_to_js (eventLog b))),
               (''state'', state_to_js (state b)),
               (''phase'', phase_to_js (bundle_phase b)),
               (''selection'', or_undefined selection_to_js (selection b))]"

text \<open>The bundles in which no property holds \<^verbatim>\<open>undefined\<close>.\<close>

definition exit_code_known :: "ActivityEvent \<Rightarrow> bool" where
  "exit_code_known e = (case e of TerminalCommandEndEvent _ _ _ x \<Rightarrow> x \<noteq> None | _ \<Rightarrow> True)"

definition all_fields_defined :: "ContextBundle \<Rightarrow> bool" where
  "all_fields_defined b \<longleftrightarrow>
     selection b \<noteq> None \<and> list_all exit_code_known (eventLog b)
     \<and> list_all (\<lambda>bp. condition bp \<noteq> None) (breakpoints (state b))"

section \<open>Auxiliary notions for the proofs\<close>

text \<open>
  What holds of a buffer of capacity \<open>C > 0\<close> after the items \<open>xs\<close> were pushed into a new
  one: the cursor is the number of pushes modulo \<open>C\<close>, and the slot of each of the last
  \<open>C\<close> pushes holds it.
\<close>

definition rb_inv :: "nat \<Rightarrow> 'a list \<Rightarrow> 'a RingBuffer \<Rightarrow> bool" where
  "rb_inv C xs rb \<longleftrightarrow>
     capacity rb = C \<and> length (buffer rb) = C \<and> head rb = Some (length xs mod C) \<and>
     count rb = min (length xs) C \<and>
     (\<forall>j. length xs - C \<le> j \<and> j < length xs \<longrightarrow> buffer rb ! (j mod C) = Some (xs ! j))"

text \<open>The position of a phase in the order in which the winner loop visits the scores.\<close>

fun phase_index :: "WorkflowPhase \<Rightarrow> nat" where
  "phase_index exploring = 0"
| "phase_index iterating = 1"
| "phase_index building = 2"
| "phase_index debugging = 3"
| "phase_index archaeology = 4"
| "phase_index unknown = 5"

text \<open>A list without its repetitions, each member at its first occurrence.\<close>

fun first_seen :: "'a list \<Rightarrow> 'a list" where
  "first_seen [] = []"
| "first_seen (x # xs) = x # filter (\<lambda>y. y \<noteq> x) (first_seen xs)"

text \<open>
  The resource ids the classifier collects: the non-empty endpoints of the file switches,
  from before to, and the resources of the text changes, each in event order.
\<close>

definition present :: "string option \<Rightarrow> string list" where
  "present u = (case u of None \<Rightarrow> [] | Some x \<Rightarrow> if x = [] then [] else [x])"

fun switchUris :: "ActivityEvent list \<Rightarrow> string list" where
  "switchUris [] = []"
| "switchUris (FileSwitchEvent _ f t _ # es) = present f @ present t @ switchUris es"
| "switchUris (_ # es) = switchUris es"

fun changeUris :: "ActivityEvent list \<Rightarrow> string list" where
  "changeUris [] = []"
| "changeUris (TextChangeEvent _ u _ # es) = u # changeUris es"
| "changeUris (_ # es) = changeUris es"

text \<open>
  The list \<^verbatim>\<open>recentFiles\<close> as the specification words it: the distinct resource ids
  referenced by any file switch (both endpoints) or text change, by first occurrence in the
  event window, truncated to five. It is compared with what \<open>detectPhase\<close> returns.
\<close>

fun referencedUris :: "ActivityEvent \<Rightarrow> string list" where
  "referencedUris (FileSwitchEvent _ f t _) = present f @ present t"
| "referencedUris (TextChangeEvent _ u _) = [u]"
| "referencedUris _ = []"

definition spec_recentFiles :: "ActivityEvent list \<Rightarrow> string list" where
  "spec_recentFiles events = take 5 (first_seen (concat (map referencedUris events)))"

text \<open>
  Notions for the debounce: the text-change events of one resource, the notifications that
  concern one resource, and the timer of a resource as it evolves over its notifications
  (\<open>debounce_ok\<close>: every change list is non-empty and each notification arrives before the
  pending deadline; \<open>debounce_final\<close>: the deadline and count pending at the end).
\<close>

definition is_change_of :: "string \<Rightarrow> ActivityEvent \<Rightarrow> bool" where
  "is_change_of u e = (case e of TextChangeEvent _ r _ \<Rightarrow> r = u | _ \<Rightarrow> False)"

definition notifications_of :: "string \<Rightarrow> (int \<times> string \<times> nat) list \<Rightarrow> (int \<times> nat) list" where
  "notifications_of u evs = map (\<lambda>ev. (fst ev, snd (snd ev))) (filter (\<lambda>ev. fst (snd ev) = u) evs)"

fun debounce_ok :: "(int \<times> int) option \<Rightarrow> (int \<times> nat) list \<Rightarrow> bool" where
  "debounce_ok p [] = True"
| "debounce_ok p ((t, n) # rest) =
     (n > 0 \<and> (case p of None \<Rightarrow> True | Some (d, c) \<Rightarrow> t < d)
      \<and> debounce_ok (Some (t + TEXT_CHANGE_DEBOUNCE_MS, int n)) rest)"

fun debounce_final :: "(int \<times> int) option \<Rightarrow> (int \<times> nat) list \<Rightarrow> (int \<times> int) option" where
  "debounce_final p [] = p"
| "debounce_final p ((t, n) # rest) = debounce_final (Some (t + TEXT_CHANGE_DEBOUNCE_MS, int n)) rest"

definition fired :: "int \<Rightarrow> (string \<times> int \<times> int) list \<Rightarrow> ActivityEvent list" where
  "fired now ts =
     map (\<lambda>t. TextChangeEvent (fst (snd t)) (fst t) (snd (snd t)))
         (filter (\<lambda>t. fst (snd t) \<le> now) ts)"

text \<open>
  The count the specification asks of the emitted record: the edit operations of the whole
  burst, that is the change lists of all its notifications together.
\<close>

definition spec_burst_changeCount :: "(int \<times> nat) list \<Rightarrow> int" where
  "spec_burst_changeCount burst = int (sum_list (map snd burst))"

text \<open>Whether \<^verbatim>\<open>undefined\<close> occurs in a value, as the value itself or below it.\<close>

fun mentions_undefined :: "js_value \<Rightarrow> bool"
  and elements_mention_undefined :: "js_value list \<Rightarrow> bool"
  and properties_mention_undefined :: "(string \<times> js_value) list \<Rightarrow> bool" where
  "mentions_undefined JsUndefined = True"
| "mentions_undefined (JsArray vs) = elements_mention_undefined vs"
| "mentions_undefined (JsObject ps) = properties_mention_undefined ps"
| "mentions_undefined v = False"
| "elements_mention_undefined [] = False"
| "elements_mention_undefined (v # vs) = (mentions_undefined v \<or> elements_mention_undefined vs)"
| "properties_mention_undefined [] = False"
| "properties_mention_undefined (p # ps) =
     (mentions_undefined (snd p) \<or> properties_mention_undefined ps)"





section \<open>The ring buffer keeps the latest items\<close>

lemma mod_neq_close:
  fixes j n C :: nat
  assumes "j < n" "n - j < C"
  shows "j mod C \<noteq> n mod C"
proof
  assume e: "j mod C = n mod C"
  have "(n - j) mod C = 0"
    using e assms(1) by (metis mod_eq_dvd_iff_nat dvd_imp_mod_0 less_imp_le_nat)
  moreover have "(n - j) mod C = n - j" using assms(2) by simp
  ultimately show False using assms(1) by simp
qed

lemma rb_inv_new: "0 < C \<Longrightarrow> RingBuffer_new C = Inr rb \<Longrightarrow> rb_inv C [] rb"
  by (auto simp: RingBuffer_new_def rb_inv_def split: if_splits)

lemma rb_inv_push:
  assumes "0 < C" "rb_inv C xs rb"
  shows "rb_inv C (xs @ [x]) (push x rb)"
proof -
  let ?n = "length xs"
  have cap: "capacity rb = C" and len: "length (buffer rb) = C"
    and hd: "head rb = Some (?n mod C)" and cnt: "count rb = min ?n C"
    and slots: "\<And>j. ?n - C \<le> j \<Longrightarrow> j < ?n \<Longrightarrow> buffer rb ! (j mod C) = Some (xs ! j)"
    using assms(2) by (auto simp: rb_inv_def)
  have lt: "?n mod C < C" using assms(1) by simp
  have buf: "buffer (push x rb) = (buffer rb)[?n mod C := Some x]"
    using lt by (simp add: push_def hd js_store_def len)
  have "head (push x rb) = Some (length (xs @ [x]) mod C)"
    using assms(1) by (simp add: push_def hd cap mod_Suc_eq)
  moreover have "count (push x rb) = min (length (xs @ [x])) C"
    by (auto simp: push_def cnt cap min_def)
  moreover have "buffer (push x rb) ! (j mod C) = Some ((xs @ [x]) ! j)"
    if "length (xs @ [x]) - C \<le> j" "j < length (xs @ [x])" for j
  proof (cases "j = ?n")
    case True
    then show ?thesis using lt by (simp add: buf len)
  next
    case False
    then have jl: "j < ?n" using that(2) by simp
    have "?n - j < C" using that(1) jl assms(1) by simp
    then have ne: "j mod C \<noteq> ?n mod C" by (rule mod_neq_close[OF jl])
    have "?n - C \<le> j" using that(1) by simp
    then show ?thesis using slots[of j] jl ne by (simp add: buf nth_append)
  qed
  ultimately show ?thesis
    by (simp add: rb_inv_def len buf) (simp add: push_def cap)
qed

lemma rb_inv_pushes:
  "0 < C \<Longrightarrow> rb_inv C ys rb \<Longrightarrow> rb_inv C (ys @ xs) (pushes rb xs)"
proof (induction xs rule: rev_induct)
  case Nil
  then show ?case by (simp add: pushes_def)
next
  case (snoc x xs)
  then have "rb_inv C ((ys @ xs) @ [x]) (push x (pushes rb xs))"
    by (intro rb_inv_push) auto
  then show ?case by (simp add: pushes_def)
qed

lemma rb_inv_toArray:
  assumes "0 < C" "rb_inv C xs rb"
  shows "toArray rb = map Some (drop (length xs - C) xs)"
proof (cases "length xs < C")
  case True
  have "toArray rb = map (\<lambda>i. Some (xs ! i)) [0..<length xs]"
    using assms True
    by (auto simp: toArray_def rb_inv_def js_read_def Let_def min_def)
  also have "\<dots> = map Some xs" by (auto intro!: nth_equalityI)
  finally show ?thesis using True by simp
next
  case False
  then have ge: "C \<le> length xs" by simp
  let ?n = "length xs"
  have "toArray rb = map (\<lambda>i. Some (xs ! (?n - C + i))) [0..<C]"
  proof -
    have "js_read (buffer rb) ((?n mod C + i) mod C) = Some (xs ! (?n - C + i))" if "i < C" for i
    proof -
      have "(?n mod C + i) mod C = (?n - C + i) mod C"
        using ge by (metis add.commute le_add_diff_inverse2 mod_add_left_eq mod_add_self2 add.assoc mod_add_right_eq)
      moreover have "buffer rb ! ((?n - C + i) mod C) = Some (xs ! (?n - C + i))"
      proof -
        have "?n - C \<le> ?n - C + i" "?n - C + i < ?n" using that ge by auto
        moreover have "\<forall>j. ?n - C \<le> j \<and> j < ?n \<longrightarrow> buffer rb ! (j mod C) = Some (xs ! j)"
          using assms(2) unfolding rb_inv_def by blast
        ultimately show ?thesis by blast
      qed
      moreover have "(?n mod C + i) mod C < length (buffer rb)"
        using assms by (simp add: rb_inv_def)
      ultimately show ?thesis by (simp add: js_read_def)
    qed
    then show ?thesis using assms ge by (auto simp: toArray_def rb_inv_def Let_def min_def)
  qed
  also have "\<dots> = map Some (drop (?n - C) xs)"
    using ge by (auto intro!: nth_equalityI)
  finally show ?thesis .
qed

lemma pushes_snoc: "pushes rb (xs @ [x]) = push x (pushes rb xs)"
  by (simp add: pushes_def)

lemma zero_capacity_pushes:
  "capacity rb = 0 \<Longrightarrow> count rb = 0 \<Longrightarrow>
   capacity (pushes rb xs) = 0 \<and> count (pushes rb xs) = 0"
  by (induction xs rule: rev_induct) (simp_all add: pushes_def push_def)

lemma new_pushes:
  assumes "RingBuffer_new C = Inr rb0"
  shows "toArray (pushes rb0 xs) = map Some (drop (length xs - C) xs)"
    and "count (pushes rb0 xs) = min (length xs) C"
    and "capacity (pushes rb0 xs) = C"
proof -
  have a: "toArray (pushes rb0 xs) = map Some (drop (length xs - C) xs)
    \<and> count (pushes rb0 xs) = min (length xs) C \<and> capacity (pushes rb0 xs) = C"
  proof (cases "C = 0")
    case True
    have "capacity rb0 = 0" "count rb0 = 0"
      using assms True by (auto simp: RingBuffer_new_def)
    then have "capacity (pushes rb0 xs) = 0 \<and> count (pushes rb0 xs) = 0"
      by (rule zero_capacity_pushes)
    then show ?thesis using True by (simp add: toArray_def)
  next
    case False
    then have pos: "0 < C" by simp
    have "rb_inv C ([] @ xs) (pushes rb0 xs)"
      using pos rb_inv_new[OF pos assms] by (rule rb_inv_pushes)
    then have inv: "rb_inv C xs (pushes rb0 xs)" by simp
    show ?thesis using rb_inv_toArray[OF pos inv] inv by (simp add: rb_inv_def)
  qed
  show "toArray (pushes rb0 xs) = map Some (drop (length xs - C) xs)"
    and "count (pushes rb0 xs) = min (length xs) C"
    and "capacity (pushes rb0 xs) = C"
    using a by simp_all
qed

text \<open>
  C2. After more than \<open>C\<close> pushes into a new buffer of capacity \<open>C\<close>, \<^verbatim>\<open>toArray()\<close> has
  exactly \<open>C\<close> items, the \<open>C\<close> most recently pushed ones in push order. After any pushes
  the size is at most the capacity, and on a full buffer a push appends the new item and
  drops exactly the oldest one.
\<close>

theorem ring_buffer_keeps_latest:
  assumes "RingBuffer_new C = Inr rb0"
  shows "(C < length xs \<longrightarrow>
            length (toArray (pushes rb0 xs)) = C
          \<and> toArray (pushes rb0 xs) = map Some (drop (length xs - C) xs))
       \<and> size_rb (pushes rb0 xs) \<le> maxSize (pushes rb0 xs)
       \<and> (size_rb (pushes rb0 xs) = maxSize (pushes rb0 xs) \<longrightarrow>
            toArray (push x (pushes rb0 xs)) = tl (toArray (pushes rb0 xs) @ [Some x]))"
proof -
  let ?rb = "pushes rb0 xs"
  have ta: "toArray ?rb = map Some (drop (length xs - C) xs)"
    and cnt: "count ?rb = min (length xs) C" and cap: "capacity ?rb = C"
    using new_pushes[OF assms] by blast+
  have ta': "toArray (push x ?rb) = map Some (drop (length (xs @ [x]) - C) (xs @ [x]))"
    using new_pushes(1)[OF assms, of "xs @ [x]"] by (simp only: pushes_snoc)
  have evict: "toArray (push x ?rb) = tl (toArray ?rb @ [Some x])" if full: "count ?rb = capacity ?rb"
  proof -
    have ge: "C \<le> length xs" using full cnt cap by (simp add: min_def split: if_splits)
    have "drop (length (xs @ [x]) - C) (xs @ [x]) = tl (drop (length xs - C) xs @ [x])"
    proof (cases "C = 0")
      case True
      then show ?thesis by simp
    next
      case False
      then have "Suc (length xs) - C = Suc (length xs - C)" using ge by simp
      moreover have "drop (length xs - C) xs \<noteq> []" using False ge by simp
      ultimately show ?thesis using False
        by (simp add: drop_Suc tl_drop tl_append2 del: drop_eq_Nil drop_eq_Nil2)
    qed
    then show ?thesis by (simp add: ta ta' map_tl)
  qed
  show ?thesis using ta cnt cap evict by (simp add: size_rb_def maxSize_def)
qed

theorem ring_buffer_keeps_latest_witness:
  "RingBuffer_new 2
     = Inr (\<lparr> buffer = [None, None], head = Some 0, count = 0, capacity = 2 \<rparr> :: nat RingBuffer)
   \<and> 2 < length [10, 20, 30 :: nat]
   \<and> toArray (pushes \<lparr> buffer = [None, None], head = Some 0, count = 0, capacity = 2 \<rparr>
         [10, 20, 30 :: nat]) = [Some 20, Some 30]
   \<and> size_rb (pushes \<lparr> buffer = [None, None], head = Some 0, count = 0, capacity = 2 \<rparr>
         [10, 20, 30 :: nat]) = maxSize (pushes \<lparr> buffer = [None, None], head = Some 0, count = 0, capacity = 2 \<rparr>
         [10, 20, 30 :: nat])
   \<and> toArray (push 40 (pushes \<lparr> buffer = [None, None], head = Some 0, count = 0, capacity = 2 \<rparr>
         [10, 20, 30 :: nat])) = [Some 30, Some 40]"
proof -
  let ?rb0 = "\<lparr> buffer = [None, None], head = Some 0, count = 0, capacity = 2 \<rparr> :: nat RingBuffer"
  have "replicate 2 (None :: nat option) = [None, None]"
    by (simp add: numeral_2_eq_2)
  then have new: "RingBuffer_new 2 = Inr ?rb0"
    by (simp add: RingBuffer_new_def)
  have full: "size_rb (pushes ?rb0 [10, 20, 30]) = maxSize (pushes ?rb0 [10, 20, 30])"
    by (simp add: size_rb_def maxSize_def pushes_def push_def)
  note t = ring_buffer_keeps_latest[OF new, of "[10, 20, 30]" 40]
  from t have a: "toArray (pushes ?rb0 [10, 20, 30]) = [Some 20, Some 30]"
    by simp
  from t full have "toArray (push 40 (pushes ?rb0 [10, 20, 30]))
      = tl (toArray (pushes ?rb0 [10, 20, 30]) @ [Some 40])"
    by blast
  then have b: "toArray (push 40 (pushes ?rb0 [10, 20, 30])) = [Some 30, Some 40]"
    by (simp only: a) simp
  show ?thesis
    using new a b full by simp
qed

section \<open>The windowed read\<close>

lemma filter_sorted_is_dropWhile:
  "sorted (map f xs) \<Longrightarrow> filter (\<lambda>e. (c::int) \<le> f e) xs = dropWhile (\<lambda>e. f e < c) xs"
proof (induction xs)
  case Nil
  then show ?case by simp
next
  case (Cons x xs)
  show ?case
  proof (cases "f x < c")
    case True
    then show ?thesis using Cons by simp
  next
    case False
    then have "\<forall>e \<in> set xs. c \<le> f e" using Cons.prems by fastforce
    then have "filter (\<lambda>e. c \<le> f e) xs = xs" by simp
    then show ?thesis using False by simp
  qed
qed

lemma toArray_new_pushes_defined:
  assumes "RingBuffer_new C = Inr rb0"
  shows "None \<notin> set (toArray (pushes rb0 xs))"
    and "map the (toArray (pushes rb0 xs)) = drop (length xs - C) xs"
  using new_pushes(1)[OF assms, of xs] by (auto simp: comp_def)

text \<open>
  C3, as amended. Let the window \<open>w\<close>, the reference time \<open>now\<close>, the cutoff \<open>now - w\<close> and
  the timestamps of the items be integers of magnitude at most \<open>2 ^ 53\<close>. On a buffer
  reached by pushes into a new one, \<^verbatim>\<open>since(w, now)\<close> returns the items of \<^verbatim>\<open>toArray()\<close>
  whose timestamp is at least \<open>now - w\<close>, in the order of \<^verbatim>\<open>toArray()\<close>. When the timestamps in the buffer are non-decreasing, the result is a suffix
  of \<^verbatim>\<open>toArray()\<close> and every item before it is older than the cutoff; then a window that
  reaches the oldest item returns the full array. A window that admits every item returns
  the full array, and a window that excludes every item returns the empty list.
\<close>

theorem since_is_filter_of_toArray:
  assumes "RingBuffer_new C = Inr rb0"
    and "rb = pushes rb0 xs" and "items = map the (toArray rb)"
    and "result = filter (\<lambda>e. now - w \<le> ts e) items"
    and "safe_integer now" and "safe_integer w" and "safe_integer (now - w)"
    and "\<forall>e \<in> set items. safe_integer (ts e)"
  shows "since ts w now rb = Inr result
       \<and> (sorted (map ts items) \<longrightarrow>
            suffix result items
          \<and> (\<forall>e \<in> set (take (length items - length result) items). ts e < now - w))
       \<and> (sorted (map ts items) \<and> items \<noteq> [] \<and> now - w \<le> ts (hd items) \<longrightarrow> result = items)
       \<and> ((\<forall>e \<in> set items. now - w \<le> ts e) \<longrightarrow> result = items)
       \<and> ((\<forall>e \<in> set items. ts e < now - w) \<longrightarrow> result = [])"
proof -
  have "None \<notin> set (toArray rb)"
    using toArray_new_pushes_defined(1)[OF assms(1)] assms(2) by simp
  then have s: "since ts w now rb = Inr result"
    by (simp add: since_def Let_def assms(3,4))
  have suf: "suffix result items
      \<and> (\<forall>e \<in> set (take (length items - length result) items). ts e < now - w)"
    if srt: "sorted (map ts items)"
  proof -
    have r: "result = dropWhile (\<lambda>e. ts e < now - w) items"
      using filter_sorted_is_dropWhile[OF srt] assms(4) by simp
    have split: "items = takeWhile (\<lambda>e. ts e < now - w) items @ result"
      by (simp add: r)
    then have "suffix result items" by (metis suffixI)
    moreover have "length items - length result = length (takeWhile (\<lambda>e. ts e < now - w) items)"
      by (metis split add_diff_cancel_right' length_append)
    then have "take (length items - length result) items = takeWhile (\<lambda>e. ts e < now - w) items"
      by (metis split append_eq_conv_conj)
    then have "\<forall>e \<in> set (take (length items - length result) items). ts e < now - w"
      by (metis set_takeWhileD)
    ultimately show ?thesis by blast
  qed
  have full: "result = items" if srt: "sorted (map ts items)" and ne: "items \<noteq> []" and old: "now - w \<le> ts (hd items)"
  proof -
    obtain x rest where xs: "items = x # rest" using ne by (cases items) auto
    have "\<forall>e \<in> set items. now - w \<le> ts e"
      using srt old unfolding xs by fastforce
    then show ?thesis by (simp add: assms(4))
  qed
  have all: "result = items" if "\<forall>e \<in> set items. now - w \<le> ts e"
    using that by (simp add: assms(4))
  have none: "result = []" if "\<forall>e \<in> set items. ts e < now - w"
    using that by (simp add: assms(4) filter_empty_conv not_le)
  show ?thesis using s suf full all none by blast
qed

theorem since_is_filter_of_toArray_witness:
  "RingBuffer_new 3
     = Inr (\<lparr> buffer = [None, None, None], head = Some 0, count = 0, capacity = 3 \<rparr>
            :: ActivityEvent RingBuffer)
   \<and> sorted (map timestamp
        [FileSaveEvent 5000 ''a.ts'' ''ts'', FileSaveEvent 8000 ''a.ts'' ''ts'',
         FileSaveEvent 9500 ''a.ts'' ''ts''])
   \<and> list_all safe_integer [10000, 3000, 10000 - 3000, 60000, 10000 - 60000, 400, 10000 - 400,
        5000, 8000, 9500]
   \<and> since timestamp 3000 10000
        (pushes \<lparr> buffer = [None, None, None], head = Some 0, count = 0, capacity = 3 \<rparr>
           [FileSaveEvent 5000 ''a.ts'' ''ts'', FileSaveEvent 8000 ''a.ts'' ''ts'',
            FileSaveEvent 9500 ''a.ts'' ''ts''])
     = Inr [FileSaveEvent 8000 ''a.ts'' ''ts'', FileSaveEvent 9500 ''a.ts'' ''ts'']
   \<and> suffix [FileSaveEvent 8000 ''a.ts'' ''ts'', FileSaveEvent 9500 ''a.ts'' ''ts'']
        [FileSaveEvent 5000 ''a.ts'' ''ts'', FileSaveEvent 8000 ''a.ts'' ''ts'',
         FileSaveEvent 9500 ''a.ts'' ''ts'']
   \<and> since timestamp 60000 10000
        (pushes \<lparr> buffer = [None, None, None], head = Some 0, count = 0, capacity = 3 \<rparr>
           [FileSaveEvent 5000 ''a.ts'' ''ts'', FileSaveEvent 8000 ''a.ts'' ''ts'',
            FileSaveEvent 9500 ''a.ts'' ''ts''])
     = Inr [FileSaveEvent 5000 ''a.ts'' ''ts'', FileSaveEvent 8000 ''a.ts'' ''ts'',
            FileSaveEvent 9500 ''a.ts'' ''ts'']
   \<and> since timestamp 400 10000
        (pushes \<lparr> buffer = [None, None, None], head = Some 0, count = 0, capacity = 3 \<rparr>
           [FileSaveEvent 5000 ''a.ts'' ''ts'', FileSaveEvent 8000 ''a.ts'' ''ts'',
            FileSaveEvent 9500 ''a.ts'' ''ts''])
     = Inr []"
proof -
  let ?rb0 = "\<lparr> buffer = [None, None, None], head = Some 0, count = 0, capacity = 3 \<rparr>
              :: ActivityEvent RingBuffer"
  let ?xs = "[FileSaveEvent 5000 ''a.ts'' ''ts'', FileSaveEvent 8000 ''a.ts'' ''ts'',
              FileSaveEvent 9500 ''a.ts'' ''ts'']"
  have "replicate 3 (None :: ActivityEvent option) = [None, None, None]"
    by (simp add: numeral_3_eq_3)
  then have new: "RingBuffer_new 3 = Inr ?rb0"
    by (simp add: RingBuffer_new_def)
  have items: "map the (toArray (pushes ?rb0 ?xs)) = ?xs"
    using toArray_new_pushes_defined(2)[OF new, of ?xs] by simp
  have srt: "sorted (map timestamp ?xs)" by simp
  have sf: "list_all safe_integer [10000, 3000, 10000 - 3000, 60000, 10000 - 60000, 400,
      10000 - 400, 5000, 8000, 9500]"
    by (simp add: safe_integer_def)
  have si: "\<forall>e \<in> set (map the (toArray (pushes ?rb0 ?xs))). safe_integer (timestamp e)"
    by (simp add: items safe_integer_def)
  have s0: "safe_integer 10000" by (simp add: safe_integer_def)
  have sw3000: "safe_integer 3000" and sc3000: "safe_integer (10000 - 3000)"
    and sw60000: "safe_integer 60000" and sc60000: "safe_integer (10000 - 60000)"
    and sw400: "safe_integer 400" and sc400: "safe_integer (10000 - 400)"
    by (simp_all add: safe_integer_def)
  note t = since_is_filter_of_toArray[where ts = timestamp and now = 10000 and w = 3000
      and xs = ?xs, OF new refl refl refl s0 sw3000 sc3000 si]
  from t have a: "since timestamp 3000 10000 (pushes ?rb0 ?xs)
      = Inr [FileSaveEvent 8000 ''a.ts'' ''ts'', FileSaveEvent 9500 ''a.ts'' ''ts'']"
    by (simp add: items)
  from t srt have b: "suffix [FileSaveEvent 8000 ''a.ts'' ''ts'', FileSaveEvent 9500 ''a.ts'' ''ts''] ?xs"
    by (simp add: items)
  note wide = since_is_filter_of_toArray[where ts = timestamp and now = 10000 and w = 60000
      and xs = ?xs, OF new refl refl refl s0 sw60000 sc60000 si]
  have "\<forall>e \<in> set (map the (toArray (pushes ?rb0 ?xs))). 10000 - 60000 \<le> timestamp e"
    by (simp add: items)
  with wide have "since timestamp 60000 10000 (pushes ?rb0 ?xs)
      = Inr (map the (toArray (pushes ?rb0 ?xs)))"
    by metis
  then have c: "since timestamp 60000 10000 (pushes ?rb0 ?xs) = Inr ?xs"
    by (simp only: items)
  note narrow = since_is_filter_of_toArray[where ts = timestamp and now = 10000 and w = 400
      and xs = ?xs, OF new refl refl refl s0 sw400 sc400 si]
  have "\<forall>e \<in> set (map the (toArray (pushes ?rb0 ?xs))). timestamp e < 10000 - 400"
    by (simp add: items)
  with narrow have d: "since timestamp 400 10000 (pushes ?rb0 ?xs) = Inr []"
    by metis
  show ?thesis using new srt sf a b c d by simp
qed

text \<open>
  C3, as stated, fails when a later item carries an earlier timestamp: the result keeps the
  first and the third item, which is not a suffix of \<^verbatim>\<open>toArray()\<close>.
\<close>

theorem since_not_a_suffix_counterexample:
  "RingBuffer_new 3
     = Inr (\<lparr> buffer = [None, None, None], head = Some 0, count = 0, capacity = 3 \<rparr>
            :: ActivityEvent RingBuffer)
   \<and> list_all safe_integer [10000, 3000, 10000 - 3000, 9000, 1000, 9500]
   \<and> toArray
        (pushes \<lparr> buffer = [None, None, None], head = Some 0, count = 0, capacity = 3 \<rparr>
           [FileSaveEvent 9000 ''a.ts'' ''ts'', FileSaveEvent 1000 ''a.ts'' ''ts'',
            FileSaveEvent 9500 ''a.ts'' ''ts''])
     = [Some (FileSaveEvent 9000 ''a.ts'' ''ts''), Some (FileSaveEvent 1000 ''a.ts'' ''ts''),
        Some (FileSaveEvent 9500 ''a.ts'' ''ts'')]
   \<and> since timestamp 3000 10000
        (pushes \<lparr> buffer = [None, None, None], head = Some 0, count = 0, capacity = 3 \<rparr>
           [FileSaveEvent 9000 ''a.ts'' ''ts'', FileSaveEvent 1000 ''a.ts'' ''ts'',
            FileSaveEvent 9500 ''a.ts'' ''ts''])
     = Inr [FileSaveEvent 9000 ''a.ts'' ''ts'', FileSaveEvent 9500 ''a.ts'' ''ts'']
   \<and> \<not> suffix [FileSaveEvent 9000 ''a.ts'' ''ts'', FileSaveEvent 9500 ''a.ts'' ''ts'']
          [FileSaveEvent 9000 ''a.ts'' ''ts'', FileSaveEvent 1000 ''a.ts'' ''ts'',
           FileSaveEvent 9500 ''a.ts'' ''ts'']"
proof -
  let ?rb0 = "\<lparr> buffer = [None, None, None], head = Some 0, count = 0, capacity = 3 \<rparr>
              :: ActivityEvent RingBuffer"
  let ?xs = "[FileSaveEvent 9000 ''a.ts'' ''ts'', FileSaveEvent 1000 ''a.ts'' ''ts'',
              FileSaveEvent 9500 ''a.ts'' ''ts'']"
  have "replicate 3 (None :: ActivityEvent option) = [None, None, None]"
    by (simp add: numeral_3_eq_3)
  then have new: "RingBuffer_new 3 = Inr ?rb0"
    by (simp add: RingBuffer_new_def)
  have st: "pushes ?rb0 ?xs = \<lparr> buffer = map Some ?xs, head = Some 0, count = 3, capacity = 3 \<rparr>"
    by (simp add: pushes_def push_def js_store_def)
  have up: "[0..<3] = [0, 1, 2]" by (simp add: upt_rec numeral_3_eq_3)
  have ta: "toArray (pushes ?rb0 ?xs) = map Some ?xs"
    by (simp add: st toArray_def js_read_def up)
  have sn: "since timestamp 3000 10000 (pushes ?rb0 ?xs)
      = Inr [FileSaveEvent 9000 ''a.ts'' ''ts'', FileSaveEvent 9500 ''a.ts'' ''ts'']"
    by (simp add: since_def ta)
  have ns: "\<not> suffix [FileSaveEvent 9000 ''a.ts'' ''ts'', FileSaveEvent 9500 ''a.ts'' ''ts''] ?xs"
    by (simp add: suffix_Cons)
  have sf: "list_all safe_integer [10000, 3000, 10000 - 3000, 9000, 1000, 9500]"
    by (simp add: safe_integer_def)
  show ?thesis using new sf ta sn ns by simp
qed

section \<open>The classifier: winner, confidence, debugging\<close>

lemma all_phases:
  "(\<forall>q. P q) \<longleftrightarrow> P exploring \<and> P iterating \<and> P building \<and> P debugging \<and> P archaeology \<and> P unknown"
  by (metis WorkflowPhase.exhaust)

lemma ex_phases:
  "(\<exists>q. P q) \<longleftrightarrow> P exploring \<or> P iterating \<or> P building \<or> P debugging \<or> P archaeology \<or> P unknown"
  by (metis WorkflowPhase.exhaust)

lemma scores_unknown: "scores events unknown = 0"
  by (simp add: scores_def Let_def bump_def)

lemma findWinner_entries:
  assumes "sc unknown = 0" and "findWinner (entries sc) = (p, s)"
  shows "s = sc p" and "\<forall>q. sc q \<le> s" and "p \<noteq> unknown \<longrightarrow> (\<forall>q. phase_index q < phase_index p \<longrightarrow> sc q < s)"
    and "p = unknown \<longleftrightarrow> s = 0"
proof -
  have "s = sc p \<and> (\<forall>q. sc q \<le> s) \<and> (p \<noteq> unknown \<longrightarrow> (\<forall>q. phase_index q < phase_index p \<longrightarrow> sc q < s))
      \<and> (p = unknown \<longleftrightarrow> s = 0)"
    using assms
    by (cases p)
      (auto simp: findWinner_def entries_def phase_order_def all_phases split: if_splits)
  then show "s = sc p" and "\<forall>q. sc q \<le> s"
    and "p \<noteq> unknown \<longrightarrow> (\<forall>q. phase_index q < phase_index p \<longrightarrow> sc q < s)" and "p = unknown \<longleftrightarrow> s = 0"
    by blast+
qed

lemma js_round_of_int: "js_round (of_int k) = k"
  by (simp add: js_round_def) linarith

lemma confidence_rounding:
  "of_int (js_round (min 1 (of_nat s / 5) * 100)) / 100 = (min 1 (of_nat s / 5) :: rat)"
proof (cases "5 \<le> s")
  case True
  then have "(1::rat) \<le> of_nat s / 5" by simp
  then have m: "min 1 (of_nat s / 5 :: rat) = 1" by simp
  have "js_round 100 = 100" using js_round_of_int[of 100] by simp
  then show ?thesis by (simp add: m)
next
  case False
  then have "of_nat s / 5 < (1::rat)" by simp
  then have m: "min 1 (of_nat s / 5 :: rat) = of_nat s / 5" by simp
  have "(of_nat s / 5 :: rat) * 100 = of_int (20 * int s)" by simp
  then have "js_round (of_nat s / 5 * 100) = 20 * int s"
    using js_round_of_int[of "20 * int s"] by simp
  then show ?thesis by (simp add: m)
qed

lemma detectPhase_short:
  "length events < 3 \<Longrightarrow>
   detectPhase events = \<lparr> phase = unknown, confidence = 0,
     reasoning = ''Insufficient activity'', recentFiles = [] \<rparr>"
  by (simp add: detectPhase_def)

lemma detectPhase_long:
  assumes "3 \<le> length events" and "findWinner (entries (scores events)) = (p, s)"
  shows "phase (detectPhase events) = p"
    and "confidence (detectPhase events) = of_int (js_round (min 1 (of_nat s / 5) * 100)) / 100"
    and "recentFiles (detectPhase events) = take 5 (uniqueFiles events)"
  using assms by (simp_all add: detectPhase_def Let_def)

text \<open>
  C5. On at least three events the returned phase has the greatest score, and every phase
  earlier in the order exploring, iterating, building, debugging, archaeology has a strictly
  smaller one: the earliest phase wins a tie. A phase whose score is strictly above all
  others is the one returned. When every score is 0 the returned phase is unknown.
\<close>

theorem winner_is_first_greatest:
  assumes "3 \<le> length events"
  shows "((\<forall>q. scores events q = 0) \<longrightarrow> phase (detectPhase events) = unknown)
       \<and> ((\<exists>q. 0 < scores events q) \<longrightarrow>
              phase (detectPhase events) \<noteq> unknown
            \<and> (\<forall>q. scores events q \<le> scores events (phase (detectPhase events)))
            \<and> (\<forall>q. phase_index q < phase_index (phase (detectPhase events)) \<longrightarrow>
                    scores events q < scores events (phase (detectPhase events)))
            \<and> (\<forall>r. (\<forall>q. q \<noteq> r \<longrightarrow> scores events q < scores events r) \<longrightarrow>
                    phase (detectPhase events) = r))"
proof -
  obtain p s where w: "findWinner (entries (scores events)) = (p, s)"
    by (cases "findWinner (entries (scores events))")
  have ph: "phase (detectPhase events) = p"
    using detectPhase_long(1)[OF assms w] .
  note f = findWinner_entries[OF scores_unknown w]
  have zero: "p = unknown" if "\<forall>q. scores events q = 0"
    using that f(1,4) by simp
  have pos: "p \<noteq> unknown" if "\<exists>q. 0 < scores events q"
  proof
    assume "p = unknown"
    then have "s = 0" using f(4) by simp
    then have "\<forall>q. scores events q = 0" using f(2) by simp
    then show False using that by simp
  qed
  have strict: "p = r" if "\<forall>q. q \<noteq> r \<longrightarrow> scores events q < scores events r" for r
  proof (rule ccontr)
    assume "p \<noteq> r"
    then have "scores events p < scores events r" using that by blast
    moreover have "scores events r \<le> scores events p" using f(1,2) by simp
    ultimately show False by simp
  qed
  show ?thesis
    unfolding ph using zero pos strict f(1,2,3) by blast
qed

text \<open>
  C6. For every event sequence the confidence lies in \<open>[0, 1]\<close>; it is 0 on fewer than
  three events. On at least three events it is \<open>min 1 (bestScore / 5)\<close> rounded to two
  decimals, which is \<open>min 1 (bestScore / 5)\<close> itself, where \<open>bestScore\<close> is the score the
  winner loop ends with: the greatest score, that of the returned phase.
\<close>

theorem confidence_is_capped_fifth_of_best_score:
  "0 \<le> confidence (detectPhase events) \<and> confidence (detectPhase events) \<le> 1
   \<and> (length events < 3 \<longrightarrow> confidence (detectPhase events) = 0)
   \<and> (3 \<le> length events \<longrightarrow>
        confidence (detectPhase events)
          = of_int (js_round (min 1 (of_nat (snd (findWinner (entries (scores events)))) / 5) * 100)) / 100
      \<and> confidence (detectPhase events)
          = min 1 (of_nat (snd (findWinner (entries (scores events)))) / 5)
      \<and> (\<forall>q. scores events q \<le> snd (findWinner (entries (scores events))))
      \<and> snd (findWinner (entries (scores events)))
          = scores events (phase (detectPhase events)))"
proof (cases "length events < 3")
  case True
  then show ?thesis by (simp add: detectPhase_short)
next
  case False
  then have len: "3 \<le> length events" by simp
  obtain p s where w: "findWinner (entries (scores events)) = (p, s)"
    by (cases "findWinner (entries (scores events))")
  note f = findWinner_entries[OF scores_unknown w]
  have c: "confidence (detectPhase events) = of_int (js_round (min 1 (of_nat s / 5) * 100)) / 100"
    using detectPhase_long(2)[OF len w] .
  have c': "confidence (detectPhase events) = min 1 (of_nat s / 5)"
    using c by (simp only: confidence_rounding)
  have ph: "phase (detectPhase events) = p"
    using detectPhase_long(1)[OF len w] .
  have "0 \<le> confidence (detectPhase events)" "confidence (detectPhase events) \<le> 1"
    by (simp_all add: c')
  then show ?thesis
    using len c c' f(1,2) by (simp add: w ph)
qed

text \<open>
  C8. An event sequence without a \<^verbatim>\<open>debug_start\<close> and without a \<^verbatim>\<open>breakpoint_change\<close> event,
  whatever else it holds (\<^verbatim>\<open>debug_stop\<close> events, switches, edits), is never classified as
  debugging.
\<close>

theorem stop_without_start_is_not_debugging:
  assumes "\<forall>e \<in> set events. kind e \<noteq> debug_start \<and> kind e \<noteq> breakpoint_change"
  shows "phase (detectPhase events) \<noteq> debugging"
proof (cases "length events < 3")
  case True
  then show ?thesis by (simp add: detectPhase_short)
next
  case False
  then have len: "3 \<le> length events" by simp
  obtain p s where w: "findWinner (entries (scores events)) = (p, s)"
    by (cases "findWinner (entries (scores events))")
  note f = findWinner_entries[OF scores_unknown w]
  have none: "filter (\<lambda>e. kind e = debug_start) events = []"
    "filter (\<lambda>e. kind e = breakpoint_change) events = []"
    using assms by (simp_all add: filter_empty_conv)
  have d0: "scores events debugging = 0"
    by (simp add: scores_def Let_def bump_def none)
  have "p \<noteq> debugging"
  proof
    assume pd: "p = debugging"
    then have "s = 0" using f(1) d0 by simp
    then have "p = unknown" using f(4) by simp
    then show False using pd by simp
  qed
  then show ?thesis using detectPhase_long(1)[OF len w] by simp
qed

text \<open>
  C10. Whenever the classifier returns the phase unknown, on any event sequence, its
  confidence is exactly 0.
\<close>

theorem unknown_has_zero_confidence:
  assumes "phase (detectPhase events) = unknown"
  shows "confidence (detectPhase events) = 0"
proof (cases "length events < 3")
  case True
  then show ?thesis by (simp add: detectPhase_short)
next
  case False
  then have len: "3 \<le> length events" by simp
  obtain p s where w: "findWinner (entries (scores events)) = (p, s)"
    by (cases "findWinner (entries (scores events))")
  note f = findWinner_entries[OF scores_unknown w]
  have "p = unknown" using assms detectPhase_long(1)[OF len w] by simp
  then have s0: "s = 0" using f(4) by simp
  have "confidence (detectPhase events) = min 1 (of_nat s / 5)"
    using detectPhase_long(2)[OF len w] by (simp only: confidence_rounding)
  then show ?thesis by (simp add: s0)
qed

theorem winner_is_first_greatest_witness:
  "3 \<le> length [TerminalCommandStartEvent 0 ''git log --oneline'' ''bash'',
        FileSwitchEvent 1 (Some ''a.ts'') (Some ''b.ts'') (Some ''ts''),
        FileSwitchEvent 2 (Some ''b.ts'') (Some ''c.ts'') (Some ''ts''),
        FileSwitchEvent 3 (Some ''c.ts'') (Some ''d.ts'') (Some ''ts''),
        FileSwitchEvent 4 (Some ''d.ts'') (Some ''e.ts'') (Some ''ts'')]
   \<and> scores [TerminalCommandStartEvent 0 ''git log --oneline'' ''bash'',
        FileSwitchEvent 1 (Some ''a.ts'') (Some ''b.ts'') (Some ''ts''),
        FileSwitchEvent 2 (Some ''b.ts'') (Some ''c.ts'') (Some ''ts''),
        FileSwitchEvent 3 (Some ''c.ts'') (Some ''d.ts'') (Some ''ts''),
        FileSwitchEvent 4 (Some ''d.ts'') (Some ''e.ts'') (Some ''ts'')] exploring = 5
   \<and> scores [TerminalCommandStartEvent 0 ''git log --oneline'' ''bash'',
        FileSwitchEvent 1 (Some ''a.ts'') (Some ''b.ts'') (Some ''ts''),
        FileSwitchEvent 2 (Some ''b.ts'') (Some ''c.ts'') (Some ''ts''),
        FileSwitchEvent 3 (Some ''c.ts'') (Some ''d.ts'') (Some ''ts''),
        FileSwitchEvent 4 (Some ''d.ts'') (Some ''e.ts'') (Some ''ts'')] archaeology = 5
   \<and> phase (detectPhase [TerminalCommandStartEvent 0 ''git log --oneline'' ''bash'',
        FileSwitchEvent 1 (Some ''a.ts'') (Some ''b.ts'') (Some ''ts''),
        FileSwitchEvent 2 (Some ''b.ts'') (Some ''c.ts'') (Some ''ts''),
        FileSwitchEvent 3 (Some ''c.ts'') (Some ''d.ts'') (Some ''ts''),
        FileSwitchEvent 4 (Some ''d.ts'') (Some ''e.ts'') (Some ''ts'')]) = exploring
   \<and> 3 \<le> length [FileSaveEvent 0 ''a.ts'' ''ts'', FileSaveEvent 1 ''a.ts'' ''ts'',
        FileSaveEvent 2 ''a.ts'' ''ts'']
   \<and> phase (detectPhase [FileSaveEvent 0 ''a.ts'' ''ts'', FileSaveEvent 1 ''a.ts'' ''ts'',
        FileSaveEvent 2 ''a.ts'' ''ts'']) = unknown"
proof -
  let ?ev = "[TerminalCommandStartEvent 0 ''git log --oneline'' ''bash'',
        FileSwitchEvent 1 (Some ''a.ts'') (Some ''b.ts'') (Some ''ts''),
        FileSwitchEvent 2 (Some ''b.ts'') (Some ''c.ts'') (Some ''ts''),
        FileSwitchEvent 3 (Some ''c.ts'') (Some ''d.ts'') (Some ''ts''),
        FileSwitchEvent 4 (Some ''d.ts'') (Some ''e.ts'') (Some ''ts'')]"
  let ?quiet = "[FileSaveEvent 0 ''a.ts'' ''ts'', FileSaveEvent 1 ''a.ts'' ''ts'',
        FileSaveEvent 2 ''a.ts'' ''ts'']"
  have len: "3 \<le> length ?ev" by simp
  have e: "scores ?ev exploring = 5" by code_simp
  have a: "scores ?ev archaeology = 5" by code_simp
  have pos: "\<exists>q. 0 < scores ?ev q" using e by (intro exI[of _ exploring]) simp
  note t = winner_is_first_greatest[OF len]
  have first: "phase (detectPhase ?ev) = exploring"
  proof (rule ccontr)
    assume ne: "phase (detectPhase ?ev) \<noteq> exploring"
    then have "phase_index exploring < phase_index (phase (detectPhase ?ev))"
      by (cases "phase (detectPhase ?ev)") simp_all
    then have "scores ?ev exploring < scores ?ev (phase (detectPhase ?ev))"
      using t pos by blast
    moreover have "scores ?ev q \<le> 5" for q
      by (cases q; hypsubst; code_simp)
    ultimately show False using e by (metis not_less)
  qed
  have len': "3 \<le> length ?quiet" by simp
  have "scores ?quiet q = 0" for q
    by (cases q; hypsubst; code_simp)
  then have quiet: "phase (detectPhase ?quiet) = unknown"
    using winner_is_first_greatest[OF len'] by blast
  show ?thesis using len e a first len' quiet by blast
qed

theorem confidence_is_capped_fifth_of_best_score_witness:
  "3 \<le> length [TerminalCommandStartEvent 0 ''git blame src/main.ts'' ''bash'',
        FileSwitchEvent 1 (Some ''a.ts'') (Some ''b.ts'') (Some ''ts''),
        FileSwitchEvent 2 (Some ''b.ts'') (Some ''c.ts'') (Some ''ts'')]
   \<and> confidence (detectPhase [TerminalCommandStartEvent 0 ''git blame src/main.ts'' ''bash'',
        FileSwitchEvent 1 (Some ''a.ts'') (Some ''b.ts'') (Some ''ts''),
        FileSwitchEvent 2 (Some ''b.ts'') (Some ''c.ts'') (Some ''ts'')]) = 3 / 5
   \<and> length [FileSaveEvent 0 ''a.ts'' ''ts''] < 3
   \<and> confidence (detectPhase [FileSaveEvent 0 ''a.ts'' ''ts'']) = 0"
proof -
  let ?ev = "[TerminalCommandStartEvent 0 ''git blame src/main.ts'' ''bash'',
        FileSwitchEvent 1 (Some ''a.ts'') (Some ''b.ts'') (Some ''ts''),
        FileSwitchEvent 2 (Some ''b.ts'') (Some ''c.ts'') (Some ''ts'')]"
  have len: "3 \<le> length ?ev" by simp
  have best: "snd (findWinner (entries (scores ?ev))) = 3" by code_simp
  have "confidence (detectPhase ?ev) = min 1 (of_nat (snd (findWinner (entries (scores ?ev)))) / 5)"
    using confidence_is_capped_fifth_of_best_score[of ?ev] len by blast
  then have c: "confidence (detectPhase ?ev) = 3 / 5"
    by (simp add: best)
  have short: "length [FileSaveEvent 0 ''a.ts'' ''ts''] < 3" by simp
  have z: "confidence (detectPhase [FileSaveEvent 0 ''a.ts'' ''ts'']) = 0"
    using confidence_is_capped_fifth_of_best_score[of "[FileSaveEvent 0 ''a.ts'' ''ts'']"] short
    by blast
  show ?thesis using len c short z by blast
qed

theorem stop_without_start_is_not_debugging_witness:
  "map kind [DebugStopEvent 0 ''Launch'' ''node'',
        FileSwitchEvent 1 (Some ''a.ts'') (Some ''b.ts'') (Some ''ts''),
        TextChangeEvent 2 ''b.ts'' 1] = [debug_stop, file_switch, text_change]
   \<and> phase (detectPhase [DebugStopEvent 0 ''Launch'' ''node'',
        FileSwitchEvent 1 (Some ''a.ts'') (Some ''b.ts'') (Some ''ts''),
        TextChangeEvent 2 ''b.ts'' 1]) \<noteq> debugging"
proof -
  let ?ev = "[DebugStopEvent 0 ''Launch'' ''node'',
        FileSwitchEvent 1 (Some ''a.ts'') (Some ''b.ts'') (Some ''ts''),
        TextChangeEvent 2 ''b.ts'' 1]"
  have h: "\<forall>e \<in> set ?ev. kind e \<noteq> debug_start \<and> kind e \<noteq> breakpoint_change"
    by simp
  have k: "map kind ?ev = [debug_stop, file_switch, text_change]"
    by simp
  show ?thesis using k stop_without_start_is_not_debugging[OF h] by blast
qed

theorem unknown_has_zero_confidence_witness:
  "phase (detectPhase [FileSaveEvent 0 ''a.ts'' ''ts'', FileSaveEvent 1 ''a.ts'' ''ts'',
        FileSaveEvent 2 ''a.ts'' ''ts'']) = unknown
   \<and> confidence (detectPhase [FileSaveEvent 0 ''a.ts'' ''ts'', FileSaveEvent 1 ''a.ts'' ''ts'',
        FileSaveEvent 2 ''a.ts'' ''ts'']) = 0"
proof -
  let ?ev = "[FileSaveEvent 0 ''a.ts'' ''ts'', FileSaveEvent 1 ''a.ts'' ''ts'',
        FileSaveEvent 2 ''a.ts'' ''ts'']"
  have u: "phase (detectPhase ?ev) = unknown" by code_simp
  show ?thesis using u unknown_has_zero_confidence[OF u] by blast
qed

section \<open>The classifier: recent files\<close>

lemma foldl_set_add:
  "foldl (\<lambda>files x. set_add x files) acc xs = acc @ filter (\<lambda>y. y \<notin> set acc) (first_seen xs)"
proof (induction xs arbitrary: acc)
  case Nil
  then show ?case by simp
next
  case (Cons x xs)
  show ?case
  proof (cases "x \<in> set acc")
    case True
    then have "filter (\<lambda>y. y \<notin> set acc) (filter (\<lambda>y. y \<noteq> x) (first_seen xs))
        = filter (\<lambda>y. y \<notin> set acc) (first_seen xs)"
      by (auto intro: filter_cong)
    then show ?thesis using True Cons.IH[of acc] by (simp add: set_add_def)
  next
    case False
    have "filter (\<lambda>y. y \<notin> set (acc @ [x])) (first_seen xs)
        = filter (\<lambda>y. y \<notin> set acc) (filter (\<lambda>y. y \<noteq> x) (first_seen xs))"
      by (auto intro: filter_cong)
    then show ?thesis using False Cons.IH[of "acc @ [x]"] by (simp add: set_add_def)
  qed
qed

lemma add_if_truthy_fold:
  "add_if_truthy u files = foldl (\<lambda>fs x. set_add x fs) files (present u)"
  by (simp add: add_if_truthy_def present_def split: option.split)

lemma switch_fold:
  "foldl (\<lambda>files e. case e of
             FileSwitchEvent _ f t _ \<Rightarrow> add_if_truthy t (add_if_truthy f files)
           | _ \<Rightarrow> files) acc es
   = foldl (\<lambda>files x. set_add x files) acc (switchUris es)"
proof (induction es arbitrary: acc)
  case Nil
  then show ?case by simp
next
  case (Cons e es)
  then show ?case by (cases e) (simp_all add: add_if_truthy_fold)
qed

lemma change_fold:
  "foldl (\<lambda>files e. case e of TextChangeEvent _ u _ \<Rightarrow> set_add u files | _ \<Rightarrow> files) acc es
   = foldl (\<lambda>files x. set_add x files) acc (changeUris es)"
proof (induction es arbitrary: acc)
  case Nil
  then show ?case by simp
next
  case (Cons e es)
  then show ?case by (cases e) simp_all
qed

lemma switchUris_filter: "switchUris (filter (\<lambda>e. kind e = file_switch) es) = switchUris es"
proof (induction es)
  case Nil
  then show ?case by simp
next
  case (Cons e es)
  then show ?case by (cases e) simp_all
qed

lemma changeUris_filter: "changeUris (filter (\<lambda>e. kind e = text_change) es) = changeUris es"
proof (induction es)
  case Nil
  then show ?case by simp
next
  case (Cons e es)
  then show ?case by (cases e) simp_all
qed

lemma uniqueFiles_first_seen:
  "uniqueFiles events = first_seen (switchUris events @ changeUris events)"
proof -
  have "uniqueFiles events
      = foldl (\<lambda>files x. set_add x files)
          (foldl (\<lambda>files x. set_add x files) [] (switchUris events)) (changeUris events)"
    by (simp add: uniqueFiles_def Let_def switch_fold change_fold switchUris_filter
        changeUris_filter)
  also have "\<dots> = foldl (\<lambda>files x. set_add x files) [] (switchUris events @ changeUris events)"
    by simp
  also have "\<dots> = first_seen (switchUris events @ changeUris events)"
    by (simp add: foldl_set_add)
  finally show ?thesis .
qed

lemma set_first_seen: "set (first_seen xs) = set xs"
  by (induction xs) auto

lemma distinct_first_seen: "distinct (first_seen xs)"
  by (induction xs) (auto simp: set_first_seen)

text \<open>
  C4, as amended. On at least three events \<^verbatim>\<open>recentFiles\<close> is the first five of: the non-empty
  endpoints of all file switches (from before to, in event order), followed by the resources
  of the text changes, each resource at its first occurrence in that sequence. The list has
  no repetitions and holds only resources that a file switch or a text change references.
\<close>

theorem recentFiles_switches_then_changes:
  assumes "3 \<le> length events"
  shows "recentFiles (detectPhase events)
           = take 5 (first_seen (switchUris events @ changeUris events))
       \<and> distinct (recentFiles (detectPhase events))
       \<and> length (recentFiles (detectPhase events)) \<le> 5
       \<and> set (recentFiles (detectPhase events)) \<subseteq> set (concat (map referencedUris events))"
proof -
  obtain p s where w: "findWinner (entries (scores events)) = (p, s)"
    by (cases "findWinner (entries (scores events))")
  have r: "recentFiles (detectPhase events)
      = take 5 (first_seen (switchUris events @ changeUris events))"
    using detectPhase_long(3)[OF assms w] by (simp add: uniqueFiles_first_seen)
  have sub: "set (switchUris es @ changeUris es) \<subseteq> set (concat (map referencedUris es))" for es
  proof (induction es)
    case Nil
    then show ?case by simp
  next
    case (Cons e es)
    then show ?case by (cases e) auto
  qed
  have "set (take 5 (first_seen (switchUris events @ changeUris events)))
      \<subseteq> set (first_seen (switchUris events @ changeUris events))"
    by (rule set_take_subset)
  then have "set (recentFiles (detectPhase events)) \<subseteq> set (concat (map referencedUris events))"
    using sub[of events] by (simp only: r set_first_seen)
  then show ?thesis
    using r by (simp add: distinct_first_seen)
qed

theorem recentFiles_switches_then_changes_witness:
  "3 \<le> length [TextChangeEvent 0 ''a.ts'' 1,
        FileSwitchEvent 1 (Some ''b.ts'') (Some ''c.ts'') (Some ''ts''),
        FileSaveEvent 2 ''c.ts'' ''ts'']
   \<and> recentFiles (detectPhase [TextChangeEvent 0 ''a.ts'' 1,
        FileSwitchEvent 1 (Some ''b.ts'') (Some ''c.ts'') (Some ''ts''),
        FileSaveEvent 2 ''c.ts'' ''ts'']) = [''b.ts'', ''c.ts'', ''a.ts'']"
proof -
  let ?ev = "[TextChangeEvent 0 ''a.ts'' 1,
        FileSwitchEvent 1 (Some ''b.ts'') (Some ''c.ts'') (Some ''ts''),
        FileSaveEvent 2 ''c.ts'' ''ts'']"
  have len: "3 \<le> length ?ev" by simp
  have "take 5 (first_seen (switchUris ?ev @ changeUris ?ev)) = [''b.ts'', ''c.ts'', ''a.ts'']"
    by (simp add: present_def)
  then show ?thesis
    using len recentFiles_switches_then_changes[OF len] by simp
qed

text \<open>
  C4, as stated, fails when a text change comes before a file switch: the edited resource is
  first in the event window and last in \<^verbatim>\<open>recentFiles\<close>.
\<close>

theorem recentFiles_not_in_window_order_counterexample:
  "recentFiles (detectPhase [TextChangeEvent 0 ''a.ts'' 1,
        FileSwitchEvent 1 (Some ''b.ts'') (Some ''c.ts'') (Some ''ts''),
        FileSaveEvent 2 ''c.ts'' ''ts'']) = [''b.ts'', ''c.ts'', ''a.ts'']
   \<and> spec_recentFiles [TextChangeEvent 0 ''a.ts'' 1,
        FileSwitchEvent 1 (Some ''b.ts'') (Some ''c.ts'') (Some ''ts''),
        FileSaveEvent 2 ''c.ts'' ''ts''] = [''a.ts'', ''b.ts'', ''c.ts'']
   \<and> recentFiles (detectPhase [TextChangeEvent 0 ''a.ts'' 1,
        FileSwitchEvent 1 (Some ''b.ts'') (Some ''c.ts'') (Some ''ts''),
        FileSaveEvent 2 ''c.ts'' ''ts''])
     \<noteq> spec_recentFiles [TextChangeEvent 0 ''a.ts'' 1,
        FileSwitchEvent 1 (Some ''b.ts'') (Some ''c.ts'') (Some ''ts''),
        FileSaveEvent 2 ''c.ts'' ''ts'']"
proof -
  let ?ev = "[TextChangeEvent 0 ''a.ts'' 1,
        FileSwitchEvent 1 (Some ''b.ts'') (Some ''c.ts'') (Some ''ts''),
        FileSaveEvent 2 ''c.ts'' ''ts'']"
  have a: "recentFiles (detectPhase ?ev) = [''b.ts'', ''c.ts'', ''a.ts'']" by code_simp
  have b: "spec_recentFiles ?ev = [''a.ts'', ''b.ts'', ''c.ts'']"
    by (simp add: spec_recentFiles_def present_def)
  show ?thesis by (simp only: a b) simp
qed

section \<open>Delivery over HTTP\<close>














section \<open>The debounce of text changes\<close>

lemma pushes_append: "pushes b (xs @ ys) = pushes (pushes b xs) ys"
  by (simp add: pushes_def)

lemma runTimers_fold:
  "distinct (map fst ts) \<Longrightarrow>
   foldl (\<lambda>s (u, deadline, n). if deadline \<le> now then timerCallback deadline u n s else s) s ts
   = s \<lparr> log_buffer := pushes (log_buffer s) (fired now ts),
         textChangeTimers :=
           filter (\<lambda>t. fst t \<notin> fst ` set (filter (\<lambda>t. fst (snd t) \<le> now) ts)) (textChangeTimers s) \<rparr>"
proof (induction ts arbitrary: s)
  case Nil
  then show ?case by (simp add: fired_def pushes_def)
next
  case (Cons t ts)
  obtain u d n where t: "t = (u, d, n)" by (cases t) auto
  have dist: "distinct (map fst ts)" using Cons.prems by simp
  show ?case
  proof (cases "d \<le> now")
    case True
    have "filter (\<lambda>x. fst x \<notin> fst ` set (filter (\<lambda>t. fst (snd t) \<le> now) ts))
            (filter (\<lambda>x. fst x \<noteq> u) (textChangeTimers s))
        = filter (\<lambda>x. fst x \<noteq> u \<and> fst x \<notin> fst ` set (filter (\<lambda>t. fst (snd t) \<le> now) ts))
            (textChangeTimers s)"
      by (simp add: conj_commute)
    then show ?thesis
      using True Cons.IH[OF dist, of "timerCallback d u n s"]
      by (simp add: t timerCallback_def fired_def pushes_def)
  next
    case False
    then show ?thesis
      using Cons.IH[OF dist, of s] by (simp add: t fired_def)
  qed
qed

lemma runTimers_char:
  assumes "distinct (map fst (textChangeTimers st))"
  shows "runTimers now st
    = st \<lparr> log_buffer := pushes (log_buffer st) (fired now (textChangeTimers st)),
           textChangeTimers := filter (\<lambda>t. \<not> fst (snd t) \<le> now) (textChangeTimers st) \<rparr>"
proof -
  have "filter (\<lambda>t. fst t \<notin> fst ` set (filter (\<lambda>t. fst (snd t) \<le> now) (textChangeTimers st)))
          (textChangeTimers st)
      = filter (\<lambda>t. \<not> fst (snd t) \<le> now) (textChangeTimers st)"
  proof (rule filter_cong[OF refl])
    fix x assume x: "x \<in> set (textChangeTimers st)"
    show "(fst x \<notin> fst ` set (filter (\<lambda>t. fst (snd t) \<le> now) (textChangeTimers st)))
        = (\<not> fst (snd x) \<le> now)"
    proof
      assume "fst x \<notin> fst ` set (filter (\<lambda>t. fst (snd t) \<le> now) (textChangeTimers st))"
      then show "\<not> fst (snd x) \<le> now" using x by force
    next
      assume nd: "\<not> fst (snd x) \<le> now"
      show "fst x \<notin> fst ` set (filter (\<lambda>t. fst (snd t) \<le> now) (textChangeTimers st))"
      proof
        assume "fst x \<in> fst ` set (filter (\<lambda>t. fst (snd t) \<le> now) (textChangeTimers st))"
        then obtain y where y: "y \<in> set (textChangeTimers st)" "fst (snd y) \<le> now" "fst y = fst x"
          by auto
        then have "y = x" using assms x by (metis eq_key_imp_eq_value prod.collapse)
        then show False using y nd by simp
      qed
    qed
  qed
  then show ?thesis
    using runTimers_fold[OF assms, of now st] by (simp add: runTimers_def)
qed

lemma fired_of_resource:
  "distinct (map fst ts) \<Longrightarrow>
   filter (is_change_of u) (fired now ts)
   = (case map_of ts u of
        None \<Rightarrow> []
      | Some (d, c) \<Rightarrow> if d \<le> now then [TextChangeEvent d u c] else [])"
proof (induction ts)
  case Nil
  then show ?case by (simp add: fired_def)
next
  case (Cons t ts)
  obtain r d n where t: "t = (r, d, n)" by (cases t) auto
  have ih: "filter (is_change_of u) (fired now ts)
      = (case map_of ts u of None \<Rightarrow> []
         | Some (d, c) \<Rightarrow> if d \<le> now then [TextChangeEvent d u c] else [])"
    using Cons by simp
  have f: "fired now ((k, d, n) # ts)
      = (if d \<le> now then [TextChangeEvent d k n] else []) @ fired now ts" for k
    by (simp add: fired_def)
  have ic: "is_change_of u (TextChangeEvent d k n) = (k = u)" for k
    by (simp add: is_change_of_def)
  show ?case
  proof (cases "r = u")
    case True
    then have "u \<notin> fst ` set ts" using Cons.prems t by auto
    then have "map_of ts u = None" by (simp add: map_of_eq_None_iff)
    then show ?thesis using True ih by (simp add: f t ic)
  next
    case False
    then show ?thesis using ih by (simp add: f t ic)
  qed
qed

lemma map_of_not_due:
  "distinct (map fst ts) \<Longrightarrow>
   map_of (filter (\<lambda>t. \<not> fst (snd t) \<le> now) ts) u
   = (case map_of ts u of
        None \<Rightarrow> None
      | Some (d, c) \<Rightarrow> if d \<le> now then None else Some (d, c))"
proof (induction ts)
  case Nil
  then show ?case by simp
next
  case (Cons t ts)
  obtain r d n where t: "t = (r, d, n)" by (cases t) auto
  show ?case
  proof (cases "r = u")
    case True
    then have "u \<notin> fst ` set ts" using Cons.prems t by auto
    then have "map_of (filter (\<lambda>t. \<not> fst (snd t) \<le> now) ts) u = None"
      by (auto simp: map_of_eq_None_iff)
    then show ?thesis using True by (simp add: t)
  next
    case False
    then show ?thesis using Cons by (simp add: t)
  qed
qed

lemma map_of_replace:
  "map_of (filter (\<lambda>t. fst t \<noteq> r) ts @ [(r, x)]) u = (if u = r then Some x else map_of ts u)"
proof (induction ts)
  case Nil
  then show ?case by simp
next
  case (Cons t ts)
  then show ?case by (cases t) (auto simp: map_of_eq_None_iff)
qed

lemma distinct_replace:
  "distinct (map fst ts) \<Longrightarrow> distinct (map fst (filter (\<lambda>t. fst t \<noteq> r) ts @ [(r, x)]))"
  by (auto simp: distinct_map_filter)

lemma notify_char:
  assumes "distinct (map fst (textChangeTimers st))"
  shows "notifyTextChange (st \<lparr> log_buffer := b \<rparr>) (t, r, n)
    = st \<lparr> log_buffer := pushes b (fired t (textChangeTimers st)),
           textChangeTimers :=
             (if n = 0 then filter (\<lambda>x. \<not> fst (snd x) \<le> t) (textChangeTimers st)
              else filter (\<lambda>x. fst x \<noteq> r) (filter (\<lambda>x. \<not> fst (snd x) \<le> t) (textChangeTimers st))
                     @ [(r, t + TEXT_CHANGE_DEBOUNCE_MS, int n)]) \<rparr>"
proof -
  have d: "distinct (map fst (textChangeTimers (st \<lparr> log_buffer := b \<rparr>)))"
    using assms by simp
  show ?thesis
    by (simp add: notifyTextChange_def runTimers_char[OF d] onDidChangeTextDocument_def)
qed

lemma first_notification_later:
  assumes "sorted (map fst ((t, r, n) # evs))" and "notifications_of u evs = (t1, n1) # rest"
  shows "t \<le> t1"
proof -
  have "(t1, n1) \<in> set (notifications_of u evs)" using assms(2) by simp
  then obtain ev where "ev \<in> set evs" "fst ev = t1"
    by (auto simp: notifications_of_def)
  then show ?thesis using assms(1) by auto
qed

lemma debounce_general:
  assumes "distinct (map fst (textChangeTimers st))" and "sorted (map fst evs)"
    and "debounce_ok (map_of (textChangeTimers st) u) (notifications_of u evs)"
    and "case debounce_final (map_of (textChangeTimers st) u) (notifications_of u evs) of
           None \<Rightarrow> True | Some (d, c) \<Rightarrow> d \<le> T"
  shows "\<exists>out. (\<forall>b. log_buffer (runTimers T (notifications (st \<lparr> log_buffer := b \<rparr>) evs))
                     = pushes b out)
             \<and> filter (is_change_of u) out
                 = (case debounce_final (map_of (textChangeTimers st) u) (notifications_of u evs) of
                      None \<Rightarrow> [] | Some (d, c) \<Rightarrow> [TextChangeEvent d u c])"
  using assms
proof (induction evs arbitrary: st)
  case Nil
  let ?ts = "textChangeTimers st"
  have "\<forall>b. log_buffer (runTimers T (notifications (st \<lparr> log_buffer := b \<rparr>) []))
      = pushes b (fired T ?ts)"
  proof
    fix b
    have d: "distinct (map fst (textChangeTimers (st \<lparr> log_buffer := b \<rparr>)))"
      using Nil.prems(1) by simp
    show "log_buffer (runTimers T (notifications (st \<lparr> log_buffer := b \<rparr>) []))
      = pushes b (fired T ?ts)"
      by (simp add: notifications_def runTimers_char[OF d])
  qed
  moreover have "filter (is_change_of u) (fired T ?ts)
      = (case debounce_final (map_of ?ts u) (notifications_of u []) of
           None \<Rightarrow> [] | Some (d, c) \<Rightarrow> [TextChangeEvent d u c])"
    using Nil.prems(4) fired_of_resource[OF Nil.prems(1), of u T]
    by (auto simp: notifications_of_def split: option.splits)
  ultimately show ?case by blast
next
  case (Cons e evs)
  obtain t r n where e: "e = (t, r, n)" by (cases e) auto
  let ?ts = "textChangeTimers st"
  let ?p = "map_of ?ts u"
  define st1 where "st1 = notifyTextChange st e"
  have st1_timers: "textChangeTimers st1
      = (if n = 0 then filter (\<lambda>x. \<not> fst (snd x) \<le> t) ?ts
         else filter (\<lambda>x. fst x \<noteq> r) (filter (\<lambda>x. \<not> fst (snd x) \<le> t) ?ts)
                @ [(r, t + TEXT_CHANGE_DEBOUNCE_MS, int n)])"
    using notify_char[OF Cons.prems(1), of "log_buffer st" t r n] by (simp add: st1_def e)
  have step: "notifyTextChange (st \<lparr> log_buffer := b \<rparr>) e
      = st1 \<lparr> log_buffer := pushes b (fired t ?ts) \<rparr>" for b
    using notify_char[OF Cons.prems(1), of b t r n]
      notify_char[OF Cons.prems(1), of "log_buffer st" t r n]
    by (simp add: st1_def e)
  have nd: "distinct (map fst (filter (\<lambda>x. \<not> fst (snd x) \<le> t) ?ts))"
    using Cons.prems(1) by (simp add: distinct_map_filter)
  have d1: "distinct (map fst (textChangeTimers st1))"
    using nd distinct_replace[OF nd] by (simp add: st1_timers)
  have s1: "sorted (map fst evs)" using Cons.prems(2) by simp
  have facts: "debounce_ok (map_of (textChangeTimers st1) u) (notifications_of u evs)
      \<and> debounce_final (map_of (textChangeTimers st1) u) (notifications_of u evs)
          = (if filter (is_change_of u) (fired t ?ts) = []
             then debounce_final ?p (notifications_of u (e # evs)) else None)
      \<and> (filter (is_change_of u) (fired t ?ts) \<noteq> [] \<longrightarrow>
           Some (timestamp (hd (filter (is_change_of u) (fired t ?ts))),
                 changeCount (hd (filter (is_change_of u) (fired t ?ts))))
             = debounce_final ?p (notifications_of u (e # evs))
         \<and> length (filter (is_change_of u) (fired t ?ts)) = 1
         \<and> is_change_of u (hd (filter (is_change_of u) (fired t ?ts))))"
  proof (cases "r = u")
    case True
    have un: "notifications_of u (e # evs) = (t, n) # notifications_of u evs"
      using True by (simp add: notifications_of_def e)
    have npos: "n > 0" and early: "case ?p of None \<Rightarrow> True | Some (d, c) \<Rightarrow> t < d"
      and ok': "debounce_ok (Some (t + TEXT_CHANGE_DEBOUNCE_MS, int n)) (notifications_of u evs)"
      using Cons.prems(3) by (simp_all add: un)
    have tm: "textChangeTimers st1
        = filter (\<lambda>x. fst x \<noteq> r) (filter (\<lambda>x. \<not> fst (snd x) \<le> t) ?ts)
            @ [(r, t + TEXT_CHANGE_DEBOUNCE_MS, int n)]"
      using npos by (simp add: st1_timers)
    have p1: "map_of (textChangeTimers st1) u = Some (t + TEXT_CHANGE_DEBOUNCE_MS, int n)"
      unfolding tm map_of_replace using True by simp
    have nf: "filter (is_change_of u) (fired t ?ts) = []"
      using early fired_of_resource[OF Cons.prems(1), of u t]
      by (auto split: option.splits)
    show ?thesis using ok' by (simp add: p1 nf un)
  next
    case False
    have un: "notifications_of u (e # evs) = notifications_of u evs"
      using False by (simp add: notifications_of_def e)
    have "map_of (textChangeTimers st1) u
        = map_of (filter (\<lambda>x. \<not> fst (snd x) \<le> t) ?ts) u"
    proof (cases "n = 0")
      case True
      then show ?thesis by (simp add: st1_timers)
    next
      case nz: False
      then have tm: "textChangeTimers st1
          = filter (\<lambda>x. fst x \<noteq> r) (filter (\<lambda>x. \<not> fst (snd x) \<le> t) ?ts)
              @ [(r, t + TEXT_CHANGE_DEBOUNCE_MS, int n)]"
        by (simp add: st1_timers)
      show ?thesis unfolding tm map_of_replace using False by simp
    qed
    then have p1: "map_of (textChangeTimers st1) u
        = (case ?p of None \<Rightarrow> None | Some (d, c) \<Rightarrow> if d \<le> t then None else Some (d, c))"
      using map_of_not_due[OF Cons.prems(1), of t u] by simp
    show ?thesis
    proof (cases ?p)
      case None
      then have "filter (is_change_of u) (fired t ?ts) = []"
        using fired_of_resource[OF Cons.prems(1), of u t] by simp
      then show ?thesis using None Cons.prems(3) by (simp add: p1 un)
    next
      case (Some dc)
      obtain d c where dc: "dc = (d, c)" by (cases dc) auto
      show ?thesis
      proof (cases "d \<le> t")
        case due: True
        have none_left: "notifications_of u evs = []"
        proof (cases "notifications_of u evs")
          case Nil
          then show ?thesis .
        next
          case (Cons a rest)
          obtain t1 n1 where a: "a = (t1, n1)" by (cases a) auto
          have "t \<le> t1"
            using first_notification_later[of t r n evs u t1 n1 rest] Cons.prems(2) Cons a e
            by simp
          moreover have "t1 < d"
            using \<open>debounce_ok (map_of (textChangeTimers st) u) (notifications_of u (e # evs))\<close>
            by (simp add: un Cons a Some dc)
          ultimately show ?thesis using due by simp
        qed
        have ff: "filter (is_change_of u) (fired t ?ts) = [TextChangeEvent d u c]"
          using fired_of_resource[OF Cons.prems(1), of u t] due by (simp add: Some dc)
        show ?thesis
          using due by (simp add: p1 un none_left ff Some dc is_change_of_def)
      next
        case notdue: False
        have ff: "filter (is_change_of u) (fired t ?ts) = []"
          using fired_of_resource[OF Cons.prems(1), of u t] notdue by (simp add: Some dc)
        show ?thesis
          using notdue Cons.prems(3) by (simp add: p1 un ff Some dc)
      qed
    qed
  qed
  have fin1: "case debounce_final (map_of (textChangeTimers st1) u) (notifications_of u evs) of
           None \<Rightarrow> True | Some (d, c) \<Rightarrow> d \<le> T"
    using facts Cons.prems(4) by (auto split: if_splits)
  obtain out1 where o1: "\<forall>b. log_buffer (runTimers T (notifications (st1 \<lparr> log_buffer := b \<rparr>) evs))
        = pushes b out1"
    and f1: "filter (is_change_of u) out1
        = (case debounce_final (map_of (textChangeTimers st1) u) (notifications_of u evs) of
             None \<Rightarrow> [] | Some (d, c) \<Rightarrow> [TextChangeEvent d u c])"
    using Cons.IH[OF d1 s1 _ fin1] facts by blast
  let ?out = "fired t ?ts @ out1"
  have "\<forall>b. log_buffer (runTimers T (notifications (st \<lparr> log_buffer := b \<rparr>) (e # evs)))
      = pushes b ?out"
    using o1 by (simp add: notifications_def step pushes_append)
  moreover have "filter (is_change_of u) ?out
      = (case debounce_final ?p (notifications_of u (e # evs)) of
           None \<Rightarrow> [] | Some (d, c) \<Rightarrow> [TextChangeEvent d u c])"
  proof (cases "filter (is_change_of u) (fired t ?ts) = []")
    case True
    then show ?thesis using f1 facts by simp
  next
    case False
    let ?f = "filter (is_change_of u) (fired t ?ts)"
    have one: "?f = [hd ?f]"
      using facts False by (cases ?f) auto
    have ch: "is_change_of u (hd ?f)" using facts False by blast
    then obtain ts' c' where h: "hd ?f = TextChangeEvent ts' u c'"
      by (cases "hd ?f") (auto simp: is_change_of_def)
    have "debounce_final ?p (notifications_of u (e # evs)) = Some (ts', c')"
      using facts False h by auto
    moreover have "filter (is_change_of u) out1 = []"
      using f1 facts False by simp
    ultimately show ?thesis using one h by simp
  qed
  ultimately show ?case by blast
qed

lemma burst_debounce_ok:
  "is_burst burst \<Longrightarrow>
   (case p of None \<Rightarrow> True | Some (d, c) \<Rightarrow> burst \<noteq> [] \<longrightarrow> fst (hd burst) < d) \<Longrightarrow>
   debounce_ok p burst"
proof (induction burst arbitrary: p rule: is_burst.induct)
  case 1
  then show ?case by simp
next
  case (2 t n)
  then show ?case by (auto split: option.splits)
next
  case (3 t n t' n' rest)
  have "debounce_ok (Some (t + TEXT_CHANGE_DEBOUNCE_MS, int n)) ((t', n') # rest)"
    using 3 by (intro "3.IH") auto
  then show ?case using "3.prems" by (auto split: option.splits)
qed

lemma burst_debounce_final:
  "burst \<noteq> [] \<Longrightarrow>
   debounce_final p burst
   = Some (fst (last burst) + TEXT_CHANGE_DEBOUNCE_MS, int (snd (last burst)))"
proof (induction burst arbitrary: p)
  case Nil
  then show ?case by simp
next
  case (Cons a burst)
  then show ?case by (cases a; cases burst) auto
qed

text \<open>
  C1, as amended. Take a recorder whose pending timers have distinct resources, none of them
  for \<open>u\<close>, and notifications in time order among which those for \<open>u\<close> form a burst: non-empty
  change lists, each less than 2000 ms after the one before. Once the clock has reached
  2000 ms after the last of them, the events pushed for \<open>u\<close> are exactly one text change,
  stamped with that deadline, whose \<^verbatim>\<open>changeCount\<close> is the length of the change list of the
  last notification of the burst. The pushed events \<open>out\<close> are the same whatever buffer the
  recorder started with.
\<close>

theorem debounce_emits_last_count:
  assumes "distinct (map fst (textChangeTimers st))"
    and "u \<notin> fst ` set (textChangeTimers st)"
    and "sorted (map fst evs)"
    and "notifications_of u evs = burst" and "burst \<noteq> []" and "is_burst burst"
    and "fst (last burst) + TEXT_CHANGE_DEBOUNCE_MS \<le> T"
  shows "\<exists>out. (\<forall>b. log_buffer (runTimers T (notifications (st \<lparr> log_buffer := b \<rparr>) evs))
                     = pushes b out)
             \<and> filter (is_change_of u) out
                 = [TextChangeEvent (fst (last burst) + TEXT_CHANGE_DEBOUNCE_MS) u
                      (int (snd (last burst)))]"
proof -
  have none: "map_of (textChangeTimers st) u = None"
    using assms(2) by (simp add: map_of_eq_None_iff)
  have ok: "debounce_ok (map_of (textChangeTimers st) u) (notifications_of u evs)"
    using burst_debounce_ok[of burst None] assms(4,6) by (simp add: none)
  have fin: "debounce_final (map_of (textChangeTimers st) u) (notifications_of u evs)
      = Some (fst (last burst) + TEXT_CHANGE_DEBOUNCE_MS, int (snd (last burst)))"
    using burst_debounce_final[OF assms(5)] assms(4) by simp
  have due: "case debounce_final (map_of (textChangeTimers st) u) (notifications_of u evs) of
           None \<Rightarrow> True | Some (d, c) \<Rightarrow> d \<le> T"
    using assms(7) by (simp add: fin)
  show ?thesis
    using debounce_general[OF assms(1) assms(3) ok due] by (simp add: fin)
qed

theorem debounce_emits_last_count_witness:
  "distinct (map fst ([] :: (string \<times> int \<times> int) list))
   \<and> ''a.ts'' \<notin> fst ` set ([] :: (string \<times> int \<times> int) list)
   \<and> sorted (map fst [(0 :: int, ''a.ts'', 3 :: nat), (500, ''b.ts'', 2), (1000, ''a.ts'', 1)])
   \<and> notifications_of ''a.ts'' [(0, ''a.ts'', 3), (500, ''b.ts'', 2), (1000, ''a.ts'', 1)]
        = [(0, 3), (1000, 1)]
   \<and> is_burst [(0, 3), (1000, 1)]
   \<and> fst (last [(0 :: int, 3 :: nat), (1000, 1)]) + TEXT_CHANGE_DEBOUNCE_MS \<le> 3000
   \<and> (\<exists>out. (\<forall>b. log_buffer (runTimers 3000 (notifications
                  \<lparr> log_buffer = b, lastActiveUri = None, textChangeTimers = [] \<rparr>
                  [(0, ''a.ts'', 3), (500, ''b.ts'', 2), (1000, ''a.ts'', 1)]))
                = pushes b out)
            \<and> filter (is_change_of ''a.ts'') out = [TextChangeEvent 3000 ''a.ts'' 1])"
proof -
  let ?st = "\<lparr> log_buffer = \<lparr> buffer = [], head = Some 0, count = 0, capacity = 0 \<rparr>,
              lastActiveUri = None, textChangeTimers = [] \<rparr>"
  let ?evs = "[(0 :: int, ''a.ts'', 3 :: nat), (500, ''b.ts'', 2), (1000, ''a.ts'', 1)]"
  have h1: "distinct (map fst (textChangeTimers ?st))" by simp
  have h2: "''a.ts'' \<notin> fst ` set (textChangeTimers ?st)" by simp
  have h3: "sorted (map fst ?evs)" by simp
  have h4: "notifications_of ''a.ts'' ?evs = [(0, 3), (1000, 1)]"
    by (simp add: notifications_of_def)
  have h5: "[(0 :: int, 3 :: nat), (1000, 1)] \<noteq> []" by simp
  have h6: "is_burst [(0, 3), (1000, 1)]" by (simp add: TEXT_CHANGE_DEBOUNCE_MS_def)
  have h7: "fst (last [(0 :: int, 3 :: nat), (1000, 1)]) + TEXT_CHANGE_DEBOUNCE_MS \<le> 3000"
    by (simp add: TEXT_CHANGE_DEBOUNCE_MS_def)
  note t = debounce_emits_last_count[OF h1 h2 h3 h4 h5 h6 h7]
  have c: "\<exists>out. (\<forall>b. log_buffer (runTimers 3000 (notifications
                  \<lparr> log_buffer = b, lastActiveUri = None, textChangeTimers = [] \<rparr> ?evs))
                = pushes b out)
            \<and> filter (is_change_of ''a.ts'') out = [TextChangeEvent 3000 ''a.ts'' 1]"
    using t by (simp add: TEXT_CHANGE_DEBOUNCE_MS_def)
  show ?thesis using h3 h4 h6 h7 c by simp
qed

text \<open>
  C1, as stated, fails on a burst of two notifications with three changes and one change:
  the emitted record carries 1, not the 4 changes of the burst (nor its 2 notifications).
\<close>

theorem debounce_count_counterexample:
  "is_burst [(0, 3), (1000, 1)]
   \<and> toArray (log_buffer (runTimers 3000 (notifications
        \<lparr> log_buffer = \<lparr> buffer = [None, None, None, None], head = Some 0, count = 0,
                          capacity = 4 \<rparr>,
          lastActiveUri = None, textChangeTimers = [] \<rparr>
        [(0, ''a.ts'', 3), (1000, ''a.ts'', 1)])))
     = [Some (TextChangeEvent 3000 ''a.ts'' 1)]
   \<and> spec_burst_changeCount [(0, 3), (1000, 1)] = 4
   \<and> changeCount (TextChangeEvent 3000 ''a.ts'' 1) \<noteq> spec_burst_changeCount [(0, 3), (1000, 1)]
   \<and> changeCount (TextChangeEvent 3000 ''a.ts'' 1) \<noteq> int (length [(0 :: int, 3 :: nat), (1000, 1)])"
proof -
  let ?st = "\<lparr> log_buffer = \<lparr> buffer = [None, None, None, None], head = Some 0, count = 0,
                          capacity = 4 \<rparr>,
          lastActiveUri = None, textChangeTimers = [] \<rparr>"
  have b: "is_burst [(0, 3), (1000, 1)]" by (simp add: TEXT_CHANGE_DEBOUNCE_MS_def)
  have n: "notifications ?st [(0, ''a.ts'', 3), (1000, ''a.ts'', 1)]
      = ?st \<lparr> textChangeTimers := [(''a.ts'', 3000, 1)] \<rparr>"
    by (simp add: notifications_def notifyTextChange_def runTimers_def
        onDidChangeTextDocument_def TEXT_CHANGE_DEBOUNCE_MS_def)
  have r: "log_buffer (runTimers 3000 (?st \<lparr> textChangeTimers := [(''a.ts'', 3000, 1)] \<rparr>))
      = push (TextChangeEvent 3000 ''a.ts'' 1) (log_buffer ?st)"
    by (simp add: runTimers_def timerCallback_def)
  have ta: "toArray (push (TextChangeEvent 3000 ''a.ts'' 1) (log_buffer ?st))
      = [Some (TextChangeEvent 3000 ''a.ts'' 1)]"
    by (simp add: push_def toArray_def js_store_def js_read_def)
  have s: "spec_burst_changeCount [(0, 3), (1000, 1)] = 4"
    by (simp add: spec_burst_changeCount_def)
  show ?thesis
    by (simp only: n r ta b s) simp
qed

section \<open>The round trip through JSON\<close>

lemma stringify_none_iff: "JSON_stringify v = None \<longleftrightarrow> v = JsUndefined"
  by (cases v) simp_all

lemma parse_stringify:
  "v \<noteq> JsUndefined \<Longrightarrow> JSON_parse (the (JSON_stringify v)) = without_undefined v"
  "parse_elements (stringify_elements vs) = elements_without_undefined vs"
  "parse_properties (stringify_properties ps) = properties_without_undefined ps"
proof (induction v and vs and ps rule: JSON_stringify_stringify_elements_stringify_properties.induct)
  case (9 v vs)
  then show ?case by (cases "JSON_stringify v") (auto simp: stringify_none_iff)
next
  case (11 p ps)
  then show ?case by (cases "JSON_stringify (snd p)") (auto simp: stringify_none_iff)
qed simp_all

lemma round_trip_char:
  "round_trip v = (if v = JsUndefined then None else Some (without_undefined v))"
  using parse_stringify(1)[of v] by (cases "JSON_stringify v") (auto simp: round_trip_def stringify_none_iff)

lemma without_undefined_clean:
  "\<not> mentions_undefined v \<Longrightarrow> without_undefined v = v"
  "\<not> elements_mention_undefined vs \<Longrightarrow> elements_without_undefined vs = vs"
  "\<not> properties_mention_undefined ps \<Longrightarrow> properties_without_undefined ps = ps"
proof (induction v and vs and ps rule: mentions_undefined_elements_mention_undefined_properties_mention_undefined.induct)
qed auto

lemma without_undefined_has_none:
  "v \<noteq> JsUndefined \<Longrightarrow> \<not> mentions_undefined (without_undefined v)"
  "\<not> elements_mention_undefined (elements_without_undefined vs)"
  "\<not> properties_mention_undefined (properties_without_undefined ps)"
proof (induction v and vs and ps rule: without_undefined_elements_without_undefined_properties_without_undefined.induct)
qed auto

lemma round_trip_identity_iff:
  "round_trip v = Some v \<longleftrightarrow> \<not> mentions_undefined v"
proof
  assume "round_trip v = Some v"
  then have "v \<noteq> JsUndefined" "without_undefined v = v"
    by (auto simp: round_trip_char split: if_splits)
  then show "\<not> mentions_undefined v"
    using without_undefined_has_none(1)[of v] by simp
next
  assume c: "\<not> mentions_undefined v"
  then have "v \<noteq> JsUndefined" by auto
  then show "round_trip v = Some v"
    using without_undefined_clean(1)[OF c] by (simp add: round_trip_char)
qed

lemma elements_mention_map:
  "elements_mention_undefined (map f xs) \<longleftrightarrow> (\<exists>x \<in> set xs. mentions_undefined (f x))"
  by (induction xs) auto

lemma strings_defined: "\<not> mentions_undefined (js_strings xs)"
  by (simp add: js_strings_def elements_mention_map)

lemma event_mentions: "mentions_undefined (event_to_js e) \<longleftrightarrow> \<not> exit_code_known e"
  by (cases e)
    (auto simp: event_to_js_def exit_code_known_def js_int_def or_null_def or_undefined_def
      strings_defined split: option.splits)

lemma editor_defined: "\<not> mentions_undefined (editor_to_js ed)"
  by (simp add: editor_to_js_def js_int_def)

lemma tab_defined: "\<not> mentions_undefined (tab_to_js tab)"
  by (simp add: tab_to_js_def)

lemma diagnostic_defined: "\<not> mentions_undefined (diagnostic_to_js d)"
  by (simp add: diagnostic_to_js_def js_int_def)

lemma breakpoint_mentions: "mentions_undefined (breakpoint_to_js bp) \<longleftrightarrow> condition bp = None"
  by (simp add: breakpoint_to_js_def js_int_def or_undefined_def split: option.splits)

lemma git_defined: "\<not> mentions_undefined (git_to_js g)"
  by (simp add: git_to_js_def js_int_def strings_defined)

lemma phase_defined: "\<not> mentions_undefined (phase_to_js a)"
  by (simp add: phase_to_js_def strings_defined)

lemma selection_defined: "\<not> mentions_undefined (selection_to_js sel)"
  by (simp add: selection_to_js_def js_int_def)

lemma state_mentions:
  "mentions_undefined (state_to_js st) \<longleftrightarrow> (\<exists>bp \<in> set (breakpoints st). condition bp = None)"
  by (simp add: state_to_js_def or_null_def elements_mention_map strings_defined editor_defined
      tab_defined diagnostic_defined breakpoint_mentions git_defined split: option.splits)

lemma bundle_mentions:
  "mentions_undefined (bundle_to_js b) \<longleftrightarrow> \<not> all_fields_defined b"
  by (auto simp: bundle_to_js_def all_fields_defined_def or_undefined_def elements_mention_map
      event_mentions state_mentions phase_defined selection_defined list_all_iff
      split: option.splits)

text \<open>
  C7, as amended. Serialising a bundle and parsing the JSON back yields the bundle without its
  \<^verbatim>\<open>undefined\<close>-valued properties: an absent \<^verbatim>\<open>selection\<close>, a breakpoint without
  \<^verbatim>\<open>condition\<close>, a \<^verbatim>\<open>terminal_command_end\<close> event without \<^verbatim>\<open>exitCode\<close>. The result is
  structurally identical to the original exactly when the bundle has no such property.
\<close>

theorem bundle_round_trip_drops_undefined:
  "round_trip (bundle_to_js b) = Some (without_undefined (bundle_to_js b))
   \<and> (round_trip (bundle_to_js b) = Some (bundle_to_js b) \<longleftrightarrow> all_fields_defined b)"
proof -
  have "bundle_to_js b \<noteq> JsUndefined" by (simp add: bundle_to_js_def)
  then have "round_trip (bundle_to_js b) = Some (without_undefined (bundle_to_js b))"
    by (simp add: round_trip_char)
  moreover have "round_trip (bundle_to_js b) = Some (bundle_to_js b) \<longleftrightarrow> all_fields_defined b"
    by (simp add: round_trip_identity_iff bundle_mentions)
  ultimately show ?thesis by blast
qed

theorem bundle_round_trip_drops_undefined_witness:
  "all_fields_defined
     \<lparr> bundle_timestamp = ''2026-02-12T12:00:00.000Z'',
       eventLog = [TerminalCommandEndEvent 1000 ''npm test'' ''bash'' (Some 0)],
       state = \<lparr> activeEditor = None, openTabs = [], dirtyFiles = [], diagnostics = [],
                 breakpoints = [], gitStatus = None, workspaceFolders = [] \<rparr>,
       bundle_phase = \<lparr> phase = unknown, confidence = 0,
                        reasoning = ''Insufficient activity'', recentFiles = [] \<rparr>,
       selection = Some \<lparr> sel_uri = ''file:///src/main.ts'', startLine = 1, endLine = 2,
                          snippet = ''const x = 1;'', sel_languageId = ''typescript'' \<rparr> \<rparr>
   \<and> round_trip (bundle_to_js
     \<lparr> bundle_timestamp = ''2026-02-12T12:00:00.000Z'',
       eventLog = [TerminalCommandEndEvent 1000 ''npm test'' ''bash'' (Some 0)],
       state = \<lparr> activeEditor = None, openTabs = [], dirtyFiles = [], diagnostics = [],
                 breakpoints = [], gitStatus = None, workspaceFolders = [] \<rparr>,
       bundle_phase = \<lparr> phase = unknown, confidence = 0,
                        reasoning = ''Insufficient activity'', recentFiles = [] \<rparr>,
       selection = Some \<lparr> sel_uri = ''file:///src/main.ts'', startLine = 1, endLine = 2,
                          snippet = ''const x = 1;'', sel_languageId = ''typescript'' \<rparr> \<rparr>)
     = Some (bundle_to_js
     \<lparr> bundle_timestamp = ''2026-02-12T12:00:00.000Z'',
       eventLog = [TerminalCommandEndEvent 1000 ''npm test'' ''bash'' (Some 0)],
       state = \<lparr> activeEditor = None, openTabs = [], dirtyFiles = [], diagnostics = [],
                 breakpoints = [], gitStatus = None, workspaceFolders = [] \<rparr>,
       bundle_phase = \<lparr> phase = unknown, confidence = 0,
                        reasoning = ''Insufficient activity'', recentFiles = [] \<rparr>,
       selection = Some \<lparr> sel_uri = ''file:///src/main.ts'', startLine = 1, endLine = 2,
                          snippet = ''const x = 1;'', sel_languageId = ''typescript'' \<rparr> \<rparr>)"
proof -
  let ?b = "\<lparr> bundle_timestamp = ''2026-02-12T12:00:00.000Z'',
       eventLog = [TerminalCommandEndEvent 1000 ''npm test'' ''bash'' (Some 0)],
       state = \<lparr> activeEditor = None, openTabs = [], dirtyFiles = [], diagnostics = [],
                 breakpoints = [], gitStatus = None, workspaceFolders = [] \<rparr>,
       bundle_phase = \<lparr> phase = unknown, confidence = 0,
                        reasoning = ''Insufficient activity'', recentFiles = [] \<rparr>,
       selection = Some \<lparr> sel_uri = ''file:///src/main.ts'', startLine = 1, endLine = 2,
                          snippet = ''const x = 1;'', sel_languageId = ''typescript'' \<rparr> \<rparr>"
  have d: "all_fields_defined ?b"
    by (simp add: all_fields_defined_def exit_code_known_def)
  show ?thesis
    using d bundle_round_trip_drops_undefined[of ?b] by blast
qed

text \<open>
  C7, as stated, fails on a bundle whose event log holds a \<^verbatim>\<open>terminal_command_end\<close> event with
  an unknown exit code: the event object has the property \<^verbatim>\<open>exitCode\<close>, the parsed one has not.
\<close>

theorem bundle_round_trip_counterexample:
  "event_to_js (TerminalCommandEndEvent 1000 ''npm test'' ''bash'' None)
     = JsObject [(''kind'', JsString ''terminal_command_end''), (''timestamp'', JsNumber 1000),
                 (''commandLine'', JsString ''npm test''), (''terminalName'', JsString ''bash''),
                 (''exitCode'', JsUndefined)]
   \<and> round_trip (event_to_js (TerminalCommandEndEvent 1000 ''npm test'' ''bash'' None))
     = Some (JsObject [(''kind'', JsString ''terminal_command_end''),
                       (''timestamp'', JsNumber 1000), (''commandLine'', JsString ''npm test''),
                       (''terminalName'', JsString ''bash'')])
   \<and> round_trip (bundle_to_js
     \<lparr> bundle_timestamp = ''2026-02-12T12:00:00.000Z'',
       eventLog = [TerminalCommandEndEvent 1000 ''npm test'' ''bash'' None],
       state = \<lparr> activeEditor = None, openTabs = [], dirtyFiles = [], diagnostics = [],
                 breakpoints = [], gitStatus = None, workspaceFolders = [] \<rparr>,
       bundle_phase = \<lparr> phase = unknown, confidence = 0,
                        reasoning = ''Insufficient activity'', recentFiles = [] \<rparr>,
       selection = Some \<lparr> sel_uri = ''file:///src/main.ts'', startLine = 1, endLine = 2,
                          snippet = ''const x = 1;'', sel_languageId = ''typescript'' \<rparr> \<rparr>)
     \<noteq> Some (bundle_to_js
     \<lparr> bundle_timestamp = ''2026-02-12T12:00:00.000Z'',
       eventLog = [TerminalCommandEndEvent 1000 ''npm test'' ''bash'' None],
       state = \<lparr> activeEditor = None, openTabs = [], dirtyFiles = [], diagnostics = [],
                 breakpoints = [], gitStatus = None, workspaceFolders = [] \<rparr>,
       bundle_phase = \<lparr> phase = unknown, confidence = 0,
                        reasoning = ''Insufficient activity'', recentFiles = [] \<rparr>,
       selection = Some \<lparr> sel_uri = ''file:///src/main.ts'', startLine = 1, endLine = 2,
                          snippet = ''const x = 1;'', sel_languageId = ''typescript'' \<rparr> \<rparr>)"
proof -
  let ?e = "TerminalCommandEndEvent 1000 ''npm test'' ''bash'' None"
  let ?b = "\<lparr> bundle_timestamp = ''2026-02-12T12:00:00.000Z'',
       eventLog = [?e],
       state = \<lparr> activeEditor = None, openTabs = [], dirtyFiles = [], diagnostics = [],
                 breakpoints = [], gitStatus = None, workspaceFolders = [] \<rparr>,
       bundle_phase = \<lparr> phase = unknown, confidence = 0,
                        reasoning = ''Insufficient activity'', recentFiles = [] \<rparr>,
       selection = Some \<lparr> sel_uri = ''file:///src/main.ts'', startLine = 1, endLine = 2,
                          snippet = ''const x = 1;'', sel_languageId = ''typescript'' \<rparr> \<rparr>"
  have e: "event_to_js ?e
     = JsObject [(''kind'', JsString ''terminal_command_end''), (''timestamp'', JsNumber 1000),
                 (''commandLine'', JsString ''npm test''), (''terminalName'', JsString ''bash''),
                 (''exitCode'', JsUndefined)]"
    by (simp add: event_to_js_def js_int_def or_undefined_def)
  have r: "round_trip (event_to_js ?e)
     = Some (JsObject [(''kind'', JsString ''terminal_command_end''),
                       (''timestamp'', JsNumber 1000), (''commandLine'', JsString ''npm test''),
                       (''terminalName'', JsString ''bash'')])"
    by (simp add: e round_trip_def)
  have "\<not> all_fields_defined ?b"
    by (simp add: all_fields_defined_def exit_code_known_def)
  then have "mentions_undefined (bundle_to_js ?b)"
    using bundle_mentions[of ?b] by blast
  then have n: "round_trip (bundle_to_js ?b) \<noteq> Some (bundle_to_js ?b)"
    using round_trip_identity_iff[of "bundle_to_js ?b"] by blast
  show ?thesis using e r n by blast
qed

end
